theory Spec2Isabelle
  imports Main "HOL-Library.Word"
begin

unbundle bit_operations_syntax

section \<open>Open-addressing hash tables (KmerHashTable.h)\<close>

text \<open>
  \<^verbatim>\<open>KmerHashTable<T, Hash>\<close> and \<^verbatim>\<open>MinimizerHashTable<T, Hash>\<close> are the same code over two key
  types (\<^verbatim>\<open>Kmer\<close>, \<^verbatim>\<open>Minimizer\<close>); the model is polymorphic in the key type \<open>'k\<close> and the
  mapped type \<open>'v\<close> and so covers both.  \<^verbatim>\<open>size_t\<close> is a 64-bit word; \<open>+\<close>, \<open>-\<close> and \<open>*\<close> wrap.

  The struct is a record.  The field \<^verbatim>\<open>size_\<close> is called \<open>size_tbl\<close> (a name may not end in an
  underscore here).  The array \<^verbatim>\<open>table\<close> is a list; an access outside the list is undefined
  behaviour in the source and is the result \<open>None\<close> in the model, as is a loop that does not
  return.  The two sentinel pairs \<^verbatim>\<open>empty_val\<close> and \<^verbatim>\<open>deleted\<close> are fields; only their keys matter.

  An iterator \<^verbatim>\<open>iterator(this, h)\<close> is modelled by its index \<open>h\<close>; \<^verbatim>\<open>iterator(this)\<close>, which is
  \<^verbatim>\<open>end()\<close>, has index \<^verbatim>\<open>size_\<close>.
\<close>

type_synonym size_t = "64 word"

record ('k, 'v) KmerHashTable =
  hasher :: "'k \<Rightarrow> size_t"
  table :: "('k \<times> 'v) list"
  size_tbl :: size_t
  pop :: size_t
  num_empty :: size_t
  empty_val :: "'k \<times> 'v"
  deleted :: "'k \<times> 'v"

definition rndup :: "size_t \<Rightarrow> size_t" where
  "rndup v0 =
     (let v1 = v0 - 1;
          v2 = v1 OR drop_bit 1 v1;
          v3 = v2 OR drop_bit 2 v2;
          v4 = v3 OR drop_bit 4 v3;
          v5 = v4 OR drop_bit 8 v4;
          v6 = v5 OR drop_bit 16 v5;
          v7 = v6 OR drop_bit 32 v6
      in v7 + 1)"

definition KmerHashTable_end :: "('k, 'v) KmerHashTable \<Rightarrow> size_t" where
  "KmerHashTable_end T = size_tbl T"

definition KmerHashTable_size :: "('k, 'v) KmerHashTable \<Rightarrow> size_t" where
  "KmerHashTable_size T = pop T"

definition KmerHashTable_empty :: "('k, 'v) KmerHashTable \<Rightarrow> bool" where
  "KmerHashTable_empty T = (pop T = 0)"

definition KmerHashTable_clear :: "('k, 'v) KmerHashTable \<Rightarrow> ('k, 'v) KmerHashTable" where
  "KmerHashTable_clear T =
     T\<lparr>table := replicate (length (table T)) (empty_val T), pop := 0, num_empty := size_tbl T\<rparr>"

definition init_table :: "size_t \<Rightarrow> ('k, 'v) KmerHashTable \<Rightarrow> ('k, 'v) KmerHashTable" where
  "init_table sz T =
     KmerHashTable_clear
       (T\<lparr>table := replicate (unat (rndup sz)) (empty_val T), size_tbl := rndup sz,
          pop := 0, num_empty := 0\<rparr>)"

text \<open>The slot at index \<open>h\<close> holds a stored pair: its key is neither sentinel.\<close>

definition occupied :: "('k, 'v) KmerHashTable \<Rightarrow> 'k \<times> 'v \<Rightarrow> bool" where
  "occupied T p = (fst p \<noteq> fst (empty_val T) \<and> fst p \<noteq> fst (deleted T))"

text \<open>
  \<^verbatim>\<open>iterator_::operator++\<close>: after \<^verbatim>\<open>++h\<close>, the loop \<^verbatim>\<open>for (; h < ht->size_; ++h)\<close> stops at the first
  slot whose key is neither sentinel.
\<close>

function iterator_scan :: "('k, 'v) KmerHashTable \<Rightarrow> size_t \<Rightarrow> size_t option" where
  "iterator_scan T h =
     (if h < size_tbl T then
        (if length (table T) \<le> unat h then None
         else if occupied T (table T ! unat h) then Some h
         else iterator_scan T (h + 1))
      else Some h)"
  by pat_completeness auto
termination
proof (relation "measure (\<lambda>(T, h). unat (size_tbl T) - unat h)")
  show "wf (measure (\<lambda>(T :: ('k, 'v) KmerHashTable, h). unat (size_tbl T) - unat h))"
    by simp
next
  fix T :: "('k, 'v) KmerHashTable" and h :: size_t
  assume "h < size_tbl T"
  then have "unat (size_tbl T) - unat (h + 1) < unat (size_tbl T) - unat h"
    by unat_arith
  then show "((T, h + 1), (T, h)) \<in> measure (\<lambda>(T, h). unat (size_tbl T) - unat h)"
    by simp
qed

declare iterator_scan.simps [simp del]

definition iterator_incr :: "('k, 'v) KmerHashTable \<Rightarrow> size_t \<Rightarrow> size_t option" where
  "iterator_incr T h = (if h = size_tbl T then Some h else iterator_scan T (h + 1))"

text \<open>\<^verbatim>\<open>find(const Kmer& key)\<close>: the \<^verbatim>\<open>for (;;)\<close> loop, then the function.\<close>

partial_function (option) find_loop ::
  "('k, 'v) KmerHashTable \<Rightarrow> 'k \<Rightarrow> size_t \<Rightarrow> size_t \<Rightarrow> size_t option" where
  "find_loop T key end_h h =
     (if length (table T) \<le> unat h then None
      else if fst (table T ! unat h) = fst (empty_val T) then Some (size_tbl T)
      else if fst (table T ! unat h) = key then Some h
      else if h = end_h then Some (size_tbl T)
      else find_loop T key end_h (if h + 1 \<noteq> size_tbl T then h + 1 else 0))"

definition KmerHashTable_find :: "('k, 'v) KmerHashTable \<Rightarrow> 'k \<Rightarrow> size_t option" where
  "KmerHashTable_find T key =
     (let h = hasher T key AND (size_tbl T - 1);
          end_h = (if h = 0 then size_tbl T - 1 else h - 1)
      in find_loop T key end_h h)"

text \<open>\<^verbatim>\<open>find(const size_t h)\<close>.\<close>

definition KmerHashTable_find_h :: "('k, 'v) KmerHashTable \<Rightarrow> size_t \<Rightarrow> size_t option" where
  "KmerHashTable_find_h T h =
     (if h < size_tbl T then
        (if length (table T) \<le> unat h then None
         else if occupied T (table T ! unat h) then Some h else Some (size_tbl T))
      else Some (size_tbl T))"

text \<open>
  \<^verbatim>\<open>erase(const_iterator pos)\<close>, \<^verbatim>\<open>erase(const size_t h)\<close> and \<^verbatim>\<open>erase(const Kmer& km)\<close>.  The first
  two return the table and the iterator to the next element.
\<close>

definition erase_slot ::
  "('k, 'v) KmerHashTable \<Rightarrow> size_t \<Rightarrow> (('k, 'v) KmerHashTable \<times> size_t) option" where
  "erase_slot T h =
     (if length (table T) \<le> unat h then None
      else
        (let T' = T\<lparr>table := (table T)[unat h := deleted T], pop := pop T - 1\<rparr>
         in map_option (\<lambda>it. (T', it)) (iterator_incr T' h)))"

definition KmerHashTable_erase_it ::
  "('k, 'v) KmerHashTable \<Rightarrow> size_t \<Rightarrow> (('k, 'v) KmerHashTable \<times> size_t) option" where
  "KmerHashTable_erase_it T pos =
     (if pos = KmerHashTable_end T then Some (T, KmerHashTable_end T) else erase_slot T pos)"

definition KmerHashTable_erase_h ::
  "('k, 'v) KmerHashTable \<Rightarrow> size_t \<Rightarrow> (('k, 'v) KmerHashTable \<times> size_t) option" where
  "KmerHashTable_erase_h T h =
     (if size_tbl T \<le> h then Some (T, KmerHashTable_end T) else erase_slot T h)"

definition KmerHashTable_erase_key ::
  "('k, 'v) KmerHashTable \<Rightarrow> 'k \<Rightarrow> (('k, 'v) KmerHashTable \<times> size_t) option" where
  "KmerHashTable_erase_key T km =
     Option.bind (KmerHashTable_find T km) (\<lambda>pos.
       let oldpop = pop T in
       if pos \<noteq> KmerHashTable_end T
       then map_option (\<lambda>r. (fst r, oldpop - pop (fst r))) (KmerHashTable_erase_it T pos)
       else Some (T, oldpop - pop T))"


text \<open>
  \<^verbatim>\<open>reserve\<close> calls \<^verbatim>\<open>insert\<close> for every stored pair of the old array, and \<^verbatim>\<open>insert\<close> calls
  \<^verbatim>\<open>reserve\<close>.  The loop over the old array and the body of \<^verbatim>\<open>reserve\<close> take the insertion
  function as an argument, so that \<^verbatim>\<open>insert\<close> can be defined by one recursive equation.
\<close>

fun reserve_loop ::
  "(('k, 'v) KmerHashTable \<Rightarrow> 'k \<times> 'v \<Rightarrow> (('k, 'v) KmerHashTable \<times> size_t \<times> bool) option) \<Rightarrow>
   ('k \<times> 'v) list \<Rightarrow> ('k, 'v) KmerHashTable \<Rightarrow> ('k, 'v) KmerHashTable option" where
  "reserve_loop ins [] T = Some T"
| "reserve_loop ins (x # xs) T =
     (if occupied T x
      then Option.bind (ins T x) (\<lambda>r. reserve_loop ins xs (fst r))
      else reserve_loop ins xs T)"

definition reserve_body ::
  "(('k, 'v) KmerHashTable \<Rightarrow> 'k \<times> 'v \<Rightarrow> (('k, 'v) KmerHashTable \<times> size_t \<times> bool) option) \<Rightarrow>
   size_t \<Rightarrow> ('k, 'v) KmerHashTable \<Rightarrow> ('k, 'v) KmerHashTable option" where
  "reserve_body ins sz T =
     (if sz \<le> size_tbl T then Some T
      else if length (table T) < unat (size_tbl T) then None
      else reserve_loop ins (take (unat (size_tbl T)) (table T))
             (T\<lparr>table := replicate (unat (rndup sz)) (empty_val T), size_tbl := rndup sz,
                pop := 0, num_empty := rndup sz\<rparr>))"

lemma reserve_loop_mono [partial_function_mono]:
  assumes "\<And>T v. mono_option (\<lambda>f. G f T v)"
  shows "mono_option (\<lambda>f. reserve_loop (G f) xs T)"
  using assms
proof (induction xs arbitrary: T)
  case Nil
  show ?case by (simp add: option.const_mono)
next
  case (Cons x xs)
  show ?case
    unfolding reserve_loop.simps
    by (intro partial_function_mono Cons)
qed

lemma reserve_body_mono [partial_function_mono]:
  assumes "\<And>T v. mono_option (\<lambda>f. G f T v)"
  shows "mono_option (\<lambda>f. reserve_body (G f) sz T)"
  unfolding reserve_body_def
  by (intro partial_function_mono assms)



text \<open>
  The number of stored keys is the number of slots whose key is neither sentinel;
  \<^verbatim>\<open>size()\<close> reports it when it equals \<^verbatim>\<open>pop\<close>.
\<close>

definition stored_keys :: "('k, 'v) KmerHashTable \<Rightarrow> nat" where
  "stored_keys T = length (filter (occupied T) (table T))"

definition size_is_stored_keys :: "('k, 'v) KmerHashTable \<Rightarrow> bool" where
  "size_is_stored_keys T = (unat (KmerHashTable_size T) = stored_keys T)"

text \<open>
  A table of four slots over natural-number keys, with sentinels 100 (empty) and 101 (deleted):
  slot 0 holds key 4, slot 1 is empty, slot 2 is deleted, slot 3 holds key 7.
\<close>

definition example_table :: "(nat, nat) KmerHashTable" where
  "example_table =
     \<lparr>hasher = of_nat, table = [(4, 40), (100, 0), (101, 0), (7, 70)], size_tbl = 4, pop = 2,
      num_empty = 1, empty_val = (100, 0), deleted = (101, 0)\<rparr>"





section \<open>Properties of the hash tables\<close>

subsection \<open>The probe loops\<close>

lemma filter_length_update:
  "i < length xs \<Longrightarrow>
   length (filter P (xs[i := y])) + (if P (xs ! i) then 1 else 0) =
   length (filter P xs) + (if P y then 1 else 0)"
proof (induction xs arbitrary: i)
  case Nil
  then show ?case by simp
next
  case (Cons x xs)
  show ?case
  proof (cases i)
    case 0
    then show ?thesis by simp
  next
    case (Suc j)
    with Cons.prems have "j < length xs" by simp
    from Cons.IH [OF this] Suc show ?thesis by simp
  qed
qed































subsection \<open>Resizing\<close>









subsection \<open>Insertion followed by lookup\<close>



















subsection \<open>Erasing by index\<close>

lemma iterator_scan_returns:
  "length (table T) = unat (size_tbl T) \<Longrightarrow> \<exists>r. iterator_scan T h = Some r"
proof (induction T h rule: iterator_scan.induct)
  case (1 T h)
  show ?case
  proof (cases "h < size_tbl T")
    case False
    then show ?thesis by (subst iterator_scan.simps) simp
  next
    case True
    then have inb: "\<not> length (table T) \<le> unat h"
      using "1.prems" by (simp add: word_less_nat_alt)
    show ?thesis
    proof (cases "occupied T (table T ! unat h)")
      case True
      with \<open>h < size_tbl T\<close> inb show ?thesis by (subst iterator_scan.simps) simp
    next
      case False
      from "1.IH" [OF \<open>h < size_tbl T\<close> inb False "1.prems"]
      obtain r where "iterator_scan T (h + 1) = Some r" by blast
      with \<open>h < size_tbl T\<close> inb False show ?thesis by (subst iterator_scan.simps) simp
    qed
  qed
qed

lemma stored_keys_erase:
  assumes "unat h < length (table T)"
  shows "stored_keys (T\<lparr>table := (table T)[unat h := deleted T], pop := pop T - 1\<rparr>) +
           (if occupied T (table T ! unat h) then 1 else 0) = stored_keys T"
proof -
  have occ: "occupied (T\<lparr>table := (table T)[unat h := deleted T], pop := pop T - 1\<rparr>) = occupied T"
    by (rule ext) (simp add: occupied_def)
  have "\<not> occupied T (deleted T)"
    by (simp add: occupied_def)
  with filter_length_update [OF assms, of "occupied T" "deleted T"] occ
  show ?thesis by (simp add: stored_keys_def)
qed

text \<open>
  C10.  \<^verbatim>\<open>erase(const size_t h)\<close> with \<open>h\<close> below the capacity overwrites slot \<open>h\<close> with the deleted
  sentinel and decrements \<^verbatim>\<open>pop\<close> whatever the slot holds (the theorem has no hypothesis on the
  slot).  Hence, when \<^verbatim>\<open>size()\<close> was the number of stored keys before the call, it still is
  afterwards exactly when the erased slot was occupied.
\<close>

theorem erase_h_unconditional:
  assumes len: "length (table T) = unat (size_tbl T)"
      and h: "h < size_tbl T"
  shows "(\<exists>it. KmerHashTable_erase_h T h =
            Some (T\<lparr>table := (table T)[unat h := deleted T], pop := pop T - 1\<rparr>, it)) \<and>
         (size_is_stored_keys T \<longrightarrow>
            (size_is_stored_keys (T\<lparr>table := (table T)[unat h := deleted T], pop := pop T - 1\<rparr>)
               \<longleftrightarrow> occupied T (table T ! unat h)))"
proof
  let ?T' = "T\<lparr>table := (table T)[unat h := deleted T], pop := pop T - 1\<rparr>"
  from len h have inb: "unat h < length (table T)"
    by (simp add: word_less_nat_alt)
  have "length (table ?T') = unat (size_tbl ?T')"
    using len by simp
  from iterator_scan_returns [OF this, of "h + 1"]
  obtain r where "iterator_scan ?T' (h + 1) = Some r"
    by blast
  moreover from h have "h \<noteq> size_tbl T"
    by auto
  ultimately have "iterator_incr ?T' h = Some r"
    by (simp add: iterator_incr_def)
  with h inb show "\<exists>it. KmerHashTable_erase_h T h = Some (?T', it)"
    by (simp add: KmerHashTable_erase_h_def erase_slot_def Let_def)
  show "size_is_stored_keys T \<longrightarrow> (size_is_stored_keys ?T' \<longleftrightarrow> occupied T (table T ! unat h))"
  proof
    assume c: "size_is_stored_keys T"
    then have p: "unat (pop T) = stored_keys T"
      by (simp add: size_is_stored_keys_def KmerHashTable_size_def)
    note s = stored_keys_erase [OF inb]
    show "size_is_stored_keys ?T' \<longleftrightarrow> occupied T (table T ! unat h)"
    proof (cases "occupied T (table T ! unat h)")
      case True
      with s have "stored_keys T = Suc (stored_keys ?T')" by simp
      with p have "unat (pop T) = Suc (stored_keys ?T')" by simp
      then have "unat (pop T - 1) = stored_keys ?T'"
        by unat_arith
      with True show ?thesis
        by (simp add: size_is_stored_keys_def KmerHashTable_size_def)
    next
      case False
      with s p have "stored_keys ?T' = unat (pop T)" by simp
      moreover have "pop T - 1 \<noteq> pop T"
        by simp
      then have "unat (pop T - 1) \<noteq> unat (pop T)"
        by (simp add: word_unat_eq_iff)
      ultimately show ?thesis using False
        by (simp add: size_is_stored_keys_def KmerHashTable_size_def)
    qed
  qed
qed

text \<open>Erasing the empty slot 1 of the example table: \<^verbatim>\<open>pop\<close> drops to 1 while two keys stay.\<close>

theorem erase_h_unconditional_witness:
  "length (table example_table) = unat (size_tbl example_table) \<and> 1 < size_tbl example_table \<and>
   size_is_stored_keys example_table \<and>
   \<not> occupied example_table (table example_table ! unat (1 :: size_t)) \<and>
   (\<exists>it. KmerHashTable_erase_h example_table 1 =
           Some (example_table\<lparr>table := [(4, 40), (101, 0), (101, 0), (7, 70)], pop := 1\<rparr>, it)) \<and>
   \<not> size_is_stored_keys
        (example_table\<lparr>table := [(4, 40), (101, 0), (101, 0), (7, 70)], pop := 1\<rparr>)"
proof -
  have l: "length (table example_table) = unat (size_tbl example_table)"
    by code_simp
  have h: "1 < size_tbl example_table"
    by code_simp
  have c: "size_is_stored_keys example_table"
    by code_simp
  have o: "\<not> occupied example_table (table example_table ! unat (1 :: size_t))"
    by code_simp
  have u: "(table example_table)[unat (1 :: size_t) := deleted example_table] =
             [(4, 40), (101, 0), (101, 0), (7, 70)]"
    by code_simp
  have p: "pop example_table - 1 = 1"
    by code_simp
  from erase_h_unconditional [OF l h] c o l h show ?thesis
    unfolding u p by simp
qed

section \<open>Reading the input in chunks (ColoredCDBG::buildColorSets)\<close>

text \<open>
  The lambda \<^verbatim>\<open>reading_function\<close> of \<^verbatim>\<open>buildColorSets\<close> fills a vector with at most \<^verbatim>\<open>chunk_size\<close>
  pairs \<^verbatim>\<open>(substring, file_id)\<close>.  The variables it captures by reference (\<^verbatim>\<open>pos_read\<close>,
  \<^verbatim>\<open>len_read\<close>, \<^verbatim>\<open>s\<close>, \<^verbatim>\<open>prev_file_id\<close>, \<^verbatim>\<open>next_file\<close>) form the record \<open>reader\<close>; the string
  \<^verbatim>\<open>s\<close> is the field \<open>s_buf\<close>.  \<^verbatim>\<open>pos_read\<close> and \<^verbatim>\<open>len_read\<close> are \<^verbatim>\<open>size_t\<close> words, so that
  \<^verbatim>\<open>pos_read -= k_ - 1\<close> wraps as in the source; \<^verbatim>\<open>std::string::substr\<close> throws
  \<^verbatim>\<open>std::out_of_range\<close> when the position is beyond the end of the string.  The file parser
  \<^verbatim>\<open>fp\<close> is the list of the records still to be read, each with the index of its file:
  \<^verbatim>\<open>fp.read(s, file_id)\<close> takes the first one, and returns \<^verbatim>\<open>false\<close> on the empty list.
\<close>

datatype reader_error = OutOfRange

record reader =
  pos_read :: size_t
  len_read :: size_t
  s_buf :: string
  prev_file_id :: nat
  next_file :: bool

definition chunk_size :: nat where
  "chunk_size = 1000"

definition toupper :: "char \<Rightarrow> char" where
  "toupper c =
     (if (97::nat) \<le> of_char c \<and> (of_char c :: nat) \<le> 122 then char_of (of_char c - 32 :: nat) else c)"

definition substr :: "string \<Rightarrow> size_t \<Rightarrow> nat \<Rightarrow> reader_error + string" where
  "substr str pos n = (if length str < unat pos then Inl OutOfRange else Inr (take n (drop (unat pos) str)))"

text \<open>
  The inner loop \<^verbatim>\<open>while ((pos_read < len_read) && (reads_now < chunk_size))\<close>, which occurs twice
  in the source with the same body.
\<close>

function slice_loop ::
  "nat \<Rightarrow> reader \<Rightarrow> nat \<Rightarrow> (string \<times> nat) list \<Rightarrow> nat \<Rightarrow>
   reader_error + (reader \<times> (string \<times> nat) list \<times> nat)" where
  "slice_loop k st file_id v reads_now =
     (if pos_read st < len_read st \<and> reads_now < chunk_size then
        (let p = pos_read st - (of_nat k - 1) in
         case substr (s_buf st) p 1000 of
           Inl e \<Rightarrow> Inl e
         | Inr sub \<Rightarrow>
             slice_loop k (st\<lparr>pos_read := p + 1000\<rparr>) file_id (v @ [(sub, file_id)])
               (reads_now + 1))
      else Inr (st, v, reads_now))"
  by pat_completeness auto
termination
  by (relation "measure (\<lambda>(k, st, file_id, v, reads_now). chunk_size - reads_now)") auto

declare slice_loop.simps [simp del]

definition upper_all :: "(string \<times> nat) list \<Rightarrow> (string \<times> nat) list" where
  "upper_all v = map (\<lambda>p. (map toupper (fst p), snd p)) v"

text \<open>
  The loop \<^verbatim>\<open>while (reads_now < chunk_size)\<close> and the code after it.  The result is the remaining
  input, the captured variables, the filled vector (upper-cased) and the returned flag; the
  final test \<^verbatim>\<open>file_id != prev_file_id\<close> follows the assignment \<^verbatim>\<open>prev_file_id = file_id\<close> and
  is false.
\<close>

fun read_loop ::
  "nat \<Rightarrow> (string \<times> nat) list \<Rightarrow> reader \<Rightarrow> nat \<Rightarrow> (string \<times> nat) list \<Rightarrow> nat \<Rightarrow>
   reader_error + ((string \<times> nat) list \<times> reader \<times> (string \<times> nat) list \<times> bool)" where
  "read_loop k [] st file_id v reads_now =
     (if reads_now < chunk_size
      then Inr ([], st\<lparr>next_file := False\<rparr>, upper_all v, True)
      else Inr ([], st\<lparr>next_file := True, prev_file_id := file_id\<rparr>, upper_all v, False))"
| "read_loop k ((str, fid) # fp) st file_id v reads_now =
     (if reads_now < chunk_size then
        (let st1 = st\<lparr>s_buf := str, len_read := of_nat (length str), pos_read := of_nat (length str)\<rparr>
         in if 1000 < len_read st1 then
              (case slice_loop k (st1\<lparr>pos_read := of_nat k - 1\<rparr>) fid v reads_now of
                 Inl e \<Rightarrow> Inl e
               | Inr (st2, v2, reads_now2) \<Rightarrow> read_loop k fp st2 fid v2 reads_now2)
            else read_loop k fp st1 fid (v @ [(str, fid)]) (reads_now + 1))
      else Inr ((str, fid) # fp, st\<lparr>next_file := True, prev_file_id := file_id\<rparr>,
                upper_all v, False))"

definition reading_function ::
  "nat \<Rightarrow> (string \<times> nat) list \<Rightarrow> reader \<Rightarrow> (string \<times> nat) list \<Rightarrow>
   reader_error + ((string \<times> nat) list \<times> reader \<times> (string \<times> nat) list \<times> bool)" where
  "reading_function k fp st v =
     (case slice_loop k st (prev_file_id st) v 0 of
        Inl e \<Rightarrow> Inl e
      | Inr (st1, v1, reads_now) \<Rightarrow> read_loop k fp st1 (prev_file_id st) v1 reads_now)"

definition reader_init :: "nat \<Rightarrow> reader" where
  "reader_init k =
     \<lparr>pos_read = of_nat k - 1, len_read = 0, s_buf = [], prev_file_id = 0, next_file = True\<rparr>"

text \<open>
  The workers of \<^verbatim>\<open>buildColorSets\<close> call \<^verbatim>\<open>reading_function\<close> under the mutex \<^verbatim>\<open>mutex_file\<close>, each on
  its own emptied vector, until a call returns \<^verbatim>\<open>true\<close>; \<open>read_chunks\<close> is the sequence of the
  chunks so produced, in the order of the calls.
\<close>

partial_function (option) read_chunks ::
  "nat \<Rightarrow> (string \<times> nat) list \<Rightarrow> reader \<Rightarrow> (reader_error + (string \<times> nat) list list) option" where
  "read_chunks k fp st =
     (case reading_function k fp st [] of
        Inl e \<Rightarrow> Some (Inl e)
      | Inr (fp', st', v, stop) \<Rightarrow>
          if stop then Some (Inr [v])
          else Option.bind (read_chunks k fp' st')
                 (\<lambda>r. Some (case r of Inl e \<Rightarrow> Inl e | Inr chunks \<Rightarrow> Inr (v # chunks))))"

text \<open>
  The slicing as the specification words it: a record longer than 1000 characters is cut into
  slices of 1000 characters that start every \<open>1001 - k\<close> characters, as long as a slice holds
  at least one k-mer; a shorter record is one pair.
\<close>

definition num_slices :: "nat \<Rightarrow> nat \<Rightarrow> nat" where
  "num_slices k len = (if len < k then 0 else (len - k) div (1001 - k) + 1)"

definition record_slice :: "nat \<Rightarrow> string \<Rightarrow> nat \<Rightarrow> string" where
  "record_slice k str j = take 1000 (drop (j * (1001 - k)) str)"

definition record_slices :: "nat \<Rightarrow> string \<Rightarrow> string list" where
  "record_slices k str = map (record_slice k str) [0..<num_slices k (length str)]"

definition record_pairs :: "nat \<Rightarrow> string \<times> nat \<Rightarrow> (string \<times> nat) list" where
  "record_pairs k r =
     (if 1000 < length (fst r) then map (\<lambda>x. (x, snd r)) (record_slices k (fst r))
      else [r])"

text \<open>
  The state between two calls: either no record is pending, or the slices \<open>j, j + 1, \<dots>\<close> of
  the buffered record are still to be emitted.  \<open>chunk_post\<close> describes the result of one call
  on the pairs \<open>A\<close> that are still to be emitted.
\<close>

definition pending_inv :: "nat \<Rightarrow> reader \<Rightarrow> nat \<Rightarrow> (string \<times> nat) list \<Rightarrow> bool" where
  "pending_inv k st fid P \<longleftrightarrow>
     len_read st = of_nat (length (s_buf st)) \<and> length (s_buf st) < 2 ^ 63 \<and>
     (\<not> pos_read st < len_read st \<and> P = [] \<or>
      (\<exists>j. unat (pos_read st) = j * (1001 - k) + (k - 1) \<and>
           P = map (\<lambda>i. (record_slice k (s_buf st) i, fid))
                 [j..<num_slices k (length (s_buf st))]))"

definition chunk_post ::
  "nat \<Rightarrow> (string \<times> nat) list \<Rightarrow> (string \<times> nat) list \<Rightarrow> nat \<Rightarrow> (string \<times> nat) list \<Rightarrow>
   reader_error + ((string \<times> nat) list \<times> reader \<times> (string \<times> nat) list \<times> bool) \<Rightarrow> bool" where
  "chunk_post k fp v r A res \<longleftrightarrow>
     (\<exists>fp' st' P'. res = Inr (fp', st', upper_all (v @ take r A), length A < r) \<and>
        pending_inv k st' (prev_file_id st') P' \<and>
        P' @ concat (map (record_pairs k) fp') = drop r A \<and> set fp' \<subseteq> set fp)"

text \<open>A record of 1500 characters from file 7.\<close>

definition example_record :: "string \<times> nat" where
  "example_record = (replicate 1500 CHR ''a'', 7)"

section \<open>Properties of the chunked reader\<close>

lemma num_slices_iff:
  assumes "1 \<le> k" "k \<le> 1000"
  shows "j < num_slices k len \<longleftrightarrow> j * (1001 - k) + (k - 1) < len"
proof (cases "len < k")
  case True
  then show ?thesis using assms by (simp add: num_slices_def)
next
  case False
  let ?d = "1001 - k"
  from assms have d: "0 < ?d" by simp
  have "j < (len - k) div ?d + 1 \<longleftrightarrow> j \<le> (len - k) div ?d"
    by auto
  also have "\<dots> \<longleftrightarrow> j * ?d \<le> len - k"
    using d by (simp add: less_eq_div_iff_mult_less_eq)
  also have "\<dots> \<longleftrightarrow> j * ?d + (k - 1) < len"
    using False assms by auto
  finally show ?thesis using False by (simp add: num_slices_def)
qed

lemma unat_km1:
  assumes "1 \<le> k" "k \<le> 1000"
  shows "unat (of_nat k - 1 :: size_t) = k - 1"
proof -
  from assms have "of_nat k - (1 :: size_t) = of_nat (k - 1)"
    by simp
  moreover from assms have "k - 1 < 2 ^ LENGTH(64)"
    by simp
  ultimately show ?thesis
    by (simp only: unat_of_nat) simp
qed

lemma unat_of_nat_len:
  assumes "n < 2 ^ 63"
  shows "unat (of_nat n :: size_t) = n"
proof -
  from assms have "n < 2 ^ LENGTH(64)"
    by simp
  then show ?thesis
    by (simp only: unat_of_nat) simp
qed

lemma slice_loop_stop:
  "\<not> (pos_read st < len_read st \<and> reads_now < chunk_size) \<Longrightarrow>
   slice_loop k st file_id v reads_now = Inr (st, v, reads_now)"
  by (subst slice_loop.simps) auto

lemma slice_loop_step:
  assumes "pos_read st < len_read st" "reads_now < chunk_size"
    and "unat (pos_read st - (of_nat k - 1)) \<le> length (s_buf st)"
  shows "slice_loop k st file_id v reads_now =
         slice_loop k (st\<lparr>pos_read := pos_read st - (of_nat k - 1) + 1000\<rparr>) file_id
           (v @ [(take 1000 (drop (unat (pos_read st - (of_nat k - 1))) (s_buf st)), file_id)])
           (reads_now + 1)"
  using assms by (subst slice_loop.simps) (simp add: substr_def Let_def)

lemma slice_loop_spec:
  assumes k: "1 \<le> k" "k \<le> 1000"
    and "len_read st = of_nat (length (s_buf st))" "length (s_buf st) < 2 ^ 63"
    and pos: "unat (pos_read st) = j * (1001 - k) + (k - 1)"
    and rn: "reads_now \<le> 1000"
    and j': "j' = min (max (num_slices k (length (s_buf st))) j) (j + (1000 - reads_now))"
  shows "slice_loop k st file_id v reads_now =
           Inr (st\<lparr>pos_read := of_nat (j' * (1001 - k) + (k - 1))\<rparr>,
                v @ map (\<lambda>i. (record_slice k (s_buf st) i, file_id)) [j..<j'],
                reads_now + (j' - j))"
  using assms(3-)
proof (induction "1000 - reads_now" arbitrary: st j v reads_now rule: less_induct)
  case less
  let ?N = "num_slices k (length (s_buf st))"
  let ?d = "1001 - k"
  note ul = unat_of_nat_len [OF less.prems(2)]
  have lt: "pos_read st < len_read st \<longleftrightarrow> j < ?N"
    using less.prems(1,3) ul num_slices_iff [OF k] by (simp add: word_less_nat_alt)
  show ?case
  proof (cases "j < ?N \<and> reads_now < 1000")
    case False
    with less.prems(4,5) have "j' = j"
      by auto
    moreover from False lt have "\<not> (pos_read st < len_read st \<and> reads_now < chunk_size)"
      by (simp add: chunk_size_def)
    moreover have "st\<lparr>pos_read := of_nat (j * ?d + (k - 1))\<rparr> = st"
      using less.prems(3) [symmetric] by simp
    ultimately show ?thesis
      by (simp add: slice_loop_stop)
  next
    case True
    let ?p = "pos_read st - (of_nat k - 1)"
    let ?st' = "st\<lparr>pos_read := ?p + 1000\<rparr>"
    from True lt have run: "pos_read st < len_read st" "reads_now < chunk_size"
      by (simp_all add: chunk_size_def)
    from True num_slices_iff [OF k] have inb: "j * ?d + (k - 1) < length (s_buf st)"
      by simp
    have "of_nat k - (1 :: size_t) \<le> pos_read st"
      using less.prems(3) unat_km1 [OF k] by (simp add: word_le_nat_alt)
    then have up: "unat ?p = j * ?d"
      using less.prems(3) unat_km1 [OF k] by (simp add: unat_sub)
    with inb have le: "unat ?p \<le> length (s_buf st)"
      by simp
    from inb less.prems(2) have "unat ?p + unat (1000 :: size_t) < 2 ^ LENGTH(64)"
      using up by simp
    then have "unat (?p + 1000) = unat ?p + unat (1000 :: size_t)"
      by (simp only: unat_add_lem)
    with up k have up': "unat (pos_read ?st') = Suc j * ?d + (k - 1)"
      by simp
    from True have j'': "j' = min (max (num_slices k (length (s_buf ?st'))) (Suc j))
        (Suc j + (1000 - (reads_now + 1)))"
      using less.prems(5) by auto
    have m: "1000 - (reads_now + 1) < 1000 - reads_now"
      using True by linarith
    have l1: "len_read ?st' = of_nat (length (s_buf ?st'))"
      using less.prems(1) by simp
    have l2: "length (s_buf ?st') < 2 ^ 63"
      using less.prems(2) by simp
    have r1: "reads_now + 1 \<le> 1000"
      using True by simp
    from True less.prems(5) have jj: "j < j'"
      by auto
    then have upt: "[j..<j'] = j # [Suc j..<j']"
      by (simp add: upt_conv_Cons)
    have "slice_loop k st file_id v reads_now =
         slice_loop k ?st' file_id
           (v @ [(take 1000 (drop (unat ?p) (s_buf st)), file_id)]) (reads_now + 1)"
      by (rule slice_loop_step [OF run le])
    also have "\<dots> = Inr (?st'\<lparr>pos_read := of_nat (j' * ?d + (k - 1))\<rparr>,
        (v @ [(take 1000 (drop (unat ?p) (s_buf st)), file_id)]) @
          map (\<lambda>i. (record_slice k (s_buf ?st') i, file_id)) [Suc j..<j'],
        reads_now + 1 + (j' - Suc j))"
      by (rule less.hyps [OF m l1 l2 up' r1 j''])
    finally show ?thesis
      using jj by (simp add: upt up record_slice_def)
  qed
qed

lemma pending_inv_Nil:
  "pending_inv k st fid [] \<Longrightarrow> pending_inv k st' fid' []"
  if "len_read st' = len_read st" "s_buf st' = s_buf st" "pos_read st' = pos_read st"
  using that unfolding pending_inv_def by auto

lemma pending_inv_fields:
  "pending_inv k st fid P \<Longrightarrow> pending_inv k st' fid P"
  if "len_read st' = len_read st" "s_buf st' = s_buf st" "pos_read st' = pos_read st"
  using that unfolding pending_inv_def by auto

lemma read_loop_full:
  assumes "pending_inv k st fid P"
  shows "chunk_post k fp v 0 (P @ concat (map (record_pairs k) fp))
           (Inr (fp, st\<lparr>next_file := True, prev_file_id := fid\<rparr>, upper_all v, False))"
proof -
  have "pending_inv k (st\<lparr>next_file := True, prev_file_id := fid\<rparr>) fid P"
    by (rule pending_inv_fields [OF _ _ _ assms]) simp_all
  then show ?thesis
    unfolding chunk_post_def
    by (intro exI [of _ fp] exI [of _ "st\<lparr>next_file := True, prev_file_id := fid\<rparr>"] exI [of _ P])
      simp
qed

lemma chunk_post_shift:
  assumes "length Q \<le> r" "chunk_post k fp (v @ Q) (r - length Q) A res"
  shows "chunk_post k fp v r (Q @ A) res"
proof -
  from assms(1) have "length (Q @ A) < r \<longleftrightarrow> length A < r - length Q"
    by auto
  moreover from assms(1) have "take r (Q @ A) = Q @ take (r - length Q) A"
    by simp
  moreover have "drop r (Q @ A) = drop (r - length Q) A"
    using assms(1) by simp
  ultimately show ?thesis
    using assms(2) unfolding chunk_post_def by simp
qed

lemma upt_split: "j \<le> j' \<Longrightarrow> j' \<le> n \<Longrightarrow> [j..<n] = [j..<j'] @ [j'..<n]"
  by (metis le_Suc_ex upt_add_eq_append)

lemma slice_then_read:
  assumes k: "1 \<le> k" "k \<le> 1000"
    and len: "len_read st = of_nat (length (s_buf st))" "length (s_buf st) < 2 ^ 63"
    and pos: "unat (pos_read st) = j * (1001 - k) + (k - 1)"
    and rn: "rn \<le> 1000"
    and RL: "\<And>st fid v rn P. pending_inv k st fid P \<Longrightarrow> rn \<le> 1000 \<Longrightarrow> (rn < 1000 \<longrightarrow> P = []) \<Longrightarrow>
               chunk_post k fp v (1000 - rn) (P @ concat (map (record_pairs k) fp))
                 (read_loop k fp st fid v rn)"
  shows "chunk_post k fp v (1000 - rn)
           (map (\<lambda>i. (record_slice k (s_buf st) i, fid)) [j..<num_slices k (length (s_buf st))] @
            concat (map (record_pairs k) fp))
           (case slice_loop k st fid v rn of
              Inl e \<Rightarrow> Inl e
            | Inr (st2, v2, rn2) \<Rightarrow> read_loop k fp st2 fid v2 rn2)"
proof -
  let ?N = "num_slices k (length (s_buf st))"
  let ?d = "1001 - k"
  let ?mk = "\<lambda>i. (record_slice k (s_buf st) i, fid)"
  define j' where "j' = min (max ?N j) (j + (1000 - rn))"
  let ?st2 = "st\<lparr>pos_read := of_nat (j' * ?d + (k - 1))\<rparr>"
  let ?Q = "map ?mk [j..<j']"
  let ?P2 = "map ?mk [j'..<?N]"
  have sl: "slice_loop k st fid v rn = Inr (?st2, v @ ?Q, rn + (j' - j))"
    by (rule slice_loop_spec [OF k len pos rn j'_def])
  have jj: "j \<le> j'"
    by (simp add: j'_def)
  have bound: "j' * ?d + (k - 1) < 2 ^ LENGTH(64)"
  proof (cases "j' = j")
    case True
    have "unat (pos_read st) < 2 ^ LENGTH(64)"
      by (rule unsigned_less)
    with True pos show ?thesis by simp
  next
    case False
    with jj have "j < j'" by simp
    then have "j' \<le> ?N" "0 < j'"
      by (auto simp: j'_def)
    then have "j' - 1 < ?N"
      by simp
    with num_slices_iff [OF k] have "(j' - 1) * ?d + (k - 1) < length (s_buf st)"
      by simp
    moreover from \<open>0 < j'\<close> have "j' * ?d = (j' - 1) * ?d + ?d"
      by (metis Suc_diff_1 add.commute mult_Suc)
    ultimately have "j' * ?d + (k - 1) < length (s_buf st) + ?d"
      by simp
    also have "\<dots> < 2 ^ 63 + 1001"
      using len(2) by simp
    also have "\<dots> < (2::nat) ^ LENGTH(64)"
      by simp
    finally show ?thesis .
  qed
  then have "(j' * ?d + (k - 1)) mod 2 ^ LENGTH(64) = j' * ?d + (k - 1)"
    by (rule mod_less)
  then have "unat (of_nat (j' * ?d + (k - 1)) :: size_t) = j' * ?d + (k - 1)"
    by (simp only: unat_of_nat)
  moreover have "pos_read ?st2 = of_nat (j' * ?d + (k - 1))"
    by simp
  ultimately have u2: "unat (pos_read ?st2) = j' * ?d + (k - 1)"
    by (simp only:)
  have inv2: "pending_inv k ?st2 fid ?P2"
    unfolding pending_inv_def using len u2 by auto
  have rn2: "rn + (j' - j) \<le> 1000"
    using rn by (simp add: j'_def)
  have e2: "rn + (j' - j) < 1000 \<longrightarrow> ?P2 = []"
    using rn by (auto simp: j'_def)
  have lq: "length ?Q = j' - j"
    by simp
  have split: "map ?mk [j..<?N] = ?Q @ ?P2"
  proof (cases "j' \<le> ?N")
    case True
    from upt_split [OF jj True] show ?thesis
      by (simp flip: map_append)
  next
    case False
    then have "j' = j" "?N \<le> j"
      by (auto simp: j'_def)
    then show ?thesis by simp
  qed
  have "chunk_post k fp (v @ ?Q) (1000 - (rn + (j' - j))) (?P2 @ concat (map (record_pairs k) fp))
          (read_loop k fp ?st2 fid (v @ ?Q) (rn + (j' - j)))"
    by (rule RL [OF inv2 rn2 e2])
  then have cp: "chunk_post k fp (v @ ?Q) (1000 - rn - length ?Q) (?P2 @ concat (map (record_pairs k) fp))
          (read_loop k fp ?st2 fid (v @ ?Q) (rn + (j' - j)))"
    by (simp add: lq)
  have lq2: "length ?Q \<le> 1000 - rn"
    using rn by (simp add: j'_def)
  have "chunk_post k fp v (1000 - rn) (?Q @ ?P2 @ concat (map (record_pairs k) fp))
          (read_loop k fp ?st2 fid (v @ ?Q) (rn + (j' - j)))"
    by (rule chunk_post_shift [OF lq2 cp])
  then show ?thesis
    by (simp add: sl split)
qed

lemma chunk_post_mono:
  "chunk_post k fp v r A res \<Longrightarrow> set fp \<subseteq> set fp2 \<Longrightarrow> chunk_post k fp2 v r A res"
  unfolding chunk_post_def by blast

lemma long_word:
  assumes "n < 2 ^ 63"
  shows "(1000 :: size_t) < of_nat n \<longleftrightarrow> 1000 < n"
  using unat_of_nat_len [OF assms] by (simp add: word_less_nat_alt)

lemma read_loop_spec:
  assumes k: "1 \<le> k" "k \<le> 1000"
    and recs: "\<forall>r\<in>set fp. length (fst r) < 2 ^ 63"
    and inv: "pending_inv k st fid P"
    and rn: "rn \<le> 1000" "rn < 1000 \<longrightarrow> P = []"
  shows "chunk_post k fp v (1000 - rn) (P @ concat (map (record_pairs k) fp))
           (read_loop k fp st fid v rn)"
  using recs inv rn
proof (induction fp arbitrary: st fid v rn P)
  case Nil
  show ?case
  proof (cases "rn < 1000")
    case True
    with Nil.prems(4) have P: "P = []" by simp
    have "pending_inv k (st\<lparr>next_file := False\<rparr>) (prev_file_id (st\<lparr>next_file := False\<rparr>)) []"
      by (rule pending_inv_Nil [OF _ _ _ Nil.prems(2) [unfolded P]]) simp_all
    with True P show ?thesis
      unfolding chunk_post_def by (simp add: chunk_size_def)
  next
    case False
    with Nil.prems(3) have "rn = 1000" by simp
    with read_loop_full [OF Nil.prems(2), of "[]" v] show ?thesis
      by (simp add: chunk_size_def)
  qed
next
  case (Cons r fp)
  obtain str fid' where r: "r = (str, fid')"
    by (cases r)
  show ?case
  proof (cases "rn < 1000")
    case False
    with Cons.prems(3) have "rn = 1000" by simp
    with read_loop_full [OF Cons.prems(2), of "r # fp" v] r show ?thesis
      by (simp add: chunk_size_def)
  next
    case True
    with Cons.prems(4) have P: "P = []" by simp
    from Cons.prems(1) r have ls: "length str < 2 ^ 63" and recs': "\<forall>r\<in>set fp. length (fst r) < 2 ^ 63"
      by simp_all
    let ?st1 = "st\<lparr>s_buf := str, len_read := of_nat (length str), pos_read := of_nat (length str)\<rparr>"
    note IH = Cons.IH [OF recs']
    show ?thesis
    proof (cases "1000 < length str")
      case False
      have inv1: "pending_inv k ?st1 fid' []"
        unfolding pending_inv_def using ls by simp
      from True have rn1: "rn + 1 \<le> 1000" "rn + 1 < 1000 \<longrightarrow> ([] :: (string \<times> nat) list) = []"
        by simp_all
      have "chunk_post k fp (v @ [r]) (1000 - (rn + 1)) ([] @ concat (map (record_pairs k) fp))
              (read_loop k fp ?st1 fid' (v @ [r]) (rn + 1))"
        unfolding r by (rule IH [OF inv1 rn1])
      then have "chunk_post k fp (v @ [r]) (1000 - rn - length [r]) (concat (map (record_pairs k) fp))
              (read_loop k fp ?st1 fid' (v @ [r]) (rn + 1))"
        by simp
      moreover from True have "length [r] \<le> 1000 - rn"
        by simp
      ultimately have "chunk_post k fp v (1000 - rn) ([r] @ concat (map (record_pairs k) fp))
              (read_loop k fp ?st1 fid' (v @ [r]) (rn + 1))"
        by (rule chunk_post_shift [rotated])
      then have "chunk_post k (r # fp) v (1000 - rn) ([r] @ concat (map (record_pairs k) fp))
              (read_loop k fp ?st1 fid' (v @ [r]) (rn + 1))"
        by (rule chunk_post_mono) auto
      moreover have "record_pairs k r = [r]"
        using False by (simp add: r record_pairs_def)
      ultimately show ?thesis
        using True False ls by (simp add: r P chunk_size_def long_word)
    next
      case long: True
      let ?st1' = "?st1\<lparr>pos_read := of_nat k - 1\<rparr>"
      have l1: "len_read ?st1' = of_nat (length (s_buf ?st1'))" "length (s_buf ?st1') < 2 ^ 63"
        using ls by simp_all
      have p1: "unat (pos_read ?st1') = 0 * (1001 - k) + (k - 1)"
        using unat_km1 [OF k] by simp
      have "chunk_post k fp v (1000 - rn)
           (map (\<lambda>i. (record_slice k (s_buf ?st1') i, fid')) [0..<num_slices k (length (s_buf ?st1'))] @
            concat (map (record_pairs k) fp))
           (case slice_loop k ?st1' fid' v rn of
              Inl e \<Rightarrow> Inl e
            | Inr (st2, v2, rn2) \<Rightarrow> read_loop k fp st2 fid' v2 rn2)"
        by (rule slice_then_read [OF k l1 p1 Cons.prems(3)]) (rule IH)
      then have "chunk_post k (r # fp) v (1000 - rn)
           (map (\<lambda>i. (record_slice k (s_buf ?st1') i, fid')) [0..<num_slices k (length (s_buf ?st1'))] @
            concat (map (record_pairs k) fp))
           (case slice_loop k ?st1' fid' v rn of
              Inl e \<Rightarrow> Inl e
            | Inr (st2, v2, rn2) \<Rightarrow> read_loop k fp st2 fid' v2 rn2)"
        by (rule chunk_post_mono) auto
      moreover have "record_pairs k r =
          map (\<lambda>i. (record_slice k (s_buf ?st1') i, fid')) [0..<num_slices k (length (s_buf ?st1'))]"
        using long by (simp add: r record_pairs_def record_slices_def comp_def)
      ultimately show ?thesis
        using True long ls by (simp add: r P chunk_size_def long_word)
    qed
  qed
qed

lemma reading_function_spec:
  assumes k: "1 \<le> k" "k \<le> 1000"
    and recs: "\<forall>r\<in>set fp. length (fst r) < 2 ^ 63"
    and inv: "pending_inv k st (prev_file_id st) P"
  shows "chunk_post k fp [] 1000 (P @ concat (map (record_pairs k) fp))
           (reading_function k fp st [])"
proof -
  from inv have len: "len_read st = of_nat (length (s_buf st))" "length (s_buf st) < 2 ^ 63"
    by (simp_all add: pending_inv_def)
  from inv consider
      (idle) "\<not> pos_read st < len_read st" "P = []"
    | (cont) j where "unat (pos_read st) = j * (1001 - k) + (k - 1)"
        "P = map (\<lambda>i. (record_slice k (s_buf st) i, prev_file_id st))
               [j..<num_slices k (length (s_buf st))]"
    unfolding pending_inv_def by blast
  then show ?thesis
  proof cases
    case idle
    then have "slice_loop k st (prev_file_id st) [] 0 = Inr (st, [], 0)"
      by (simp add: slice_loop_stop)
    moreover have "chunk_post k fp [] (1000 - 0) (P @ concat (map (record_pairs k) fp))
           (read_loop k fp st (prev_file_id st) [] 0)"
      by (rule read_loop_spec [OF k recs inv]) (simp_all add: idle)
    ultimately show ?thesis
      by (simp add: reading_function_def)
  next
    case cont
    have "chunk_post k fp [] (1000 - 0)
           (map (\<lambda>i. (record_slice k (s_buf st) i, prev_file_id st))
              [j..<num_slices k (length (s_buf st))] @
            concat (map (record_pairs k) fp))
           (case slice_loop k st (prev_file_id st) [] 0 of
              Inl e \<Rightarrow> Inl e
            | Inr (st2, v2, rn2) \<Rightarrow> read_loop k fp st2 (prev_file_id st) v2 rn2)"
      by (rule slice_then_read [OF k len cont(1)]) (simp, rule read_loop_spec [OF k recs])
    then show ?thesis
      by (simp add: reading_function_def cont(2))
  qed
qed

lemma upper_all_append: "upper_all (xs @ ys) = upper_all xs @ upper_all ys"
  by (simp add: upper_all_def)

lemma read_chunks_spec:
  assumes k: "1 \<le> k" "k \<le> 1000"
    and recs: "\<forall>r\<in>set fp. length (fst r) < 2 ^ 63"
    and inv: "pending_inv k st (prev_file_id st) P"
  shows "\<exists>chunks. read_chunks k fp st = Some (Inr chunks) \<and>
           concat chunks = upper_all (P @ concat (map (record_pairs k) fp)) \<and>
           (\<forall>c\<in>set chunks. length c \<le> 1000)"
  using recs inv
proof (induction "length (P @ concat (map (record_pairs k) fp))" arbitrary: fp st P rule: less_induct)
  case less
  let ?A = "P @ concat (map (record_pairs k) fp)"
  from reading_function_spec [OF k less.prems]
  obtain fp' st' P' where r: "reading_function k fp st [] =
      Inr (fp', st', upper_all ([] @ take 1000 ?A), length ?A < 1000)"
    "pending_inv k st' (prev_file_id st') P'"
    "P' @ concat (map (record_pairs k) fp') = drop 1000 ?A" "set fp' \<subseteq> set fp"
    unfolding chunk_post_def by blast
  show ?case
  proof (cases "length ?A < 1000")
    case True
    with r(1) have "read_chunks k fp st = Some (Inr [upper_all ?A])"
      by (subst read_chunks.simps) simp
    moreover from True have "length (upper_all ?A) \<le> 1000"
      by (simp add: upper_all_def)
    ultimately show ?thesis
      by simp
  next
    case False
    then have m: "length (P' @ concat (map (record_pairs k) fp')) < length ?A"
      unfolding r(3) by simp
    from less.prems(1) r(4) have recs': "\<forall>r\<in>set fp'. length (fst r) < 2 ^ 63"
      by blast
    from less.hyps [OF m recs' r(2)]
    obtain chunks where c: "read_chunks k fp' st' = Some (Inr chunks)"
      "concat chunks = upper_all (P' @ concat (map (record_pairs k) fp'))"
      "\<forall>c\<in>set chunks. length c \<le> 1000"
      by blast
    from False r(1) c(1) have "read_chunks k fp st = Some (Inr (upper_all (take 1000 ?A) # chunks))"
      by (subst read_chunks.simps) simp
    moreover have "upper_all (take 1000 ?A) @ upper_all (drop 1000 ?A) = upper_all ?A"
      by (metis upper_all_append append_take_drop_id)
    then have "concat (upper_all (take 1000 ?A) # chunks) = upper_all ?A"
      using c(2) unfolding r(3) by (simp only: concat.simps)
    moreover have "length (upper_all (take 1000 ?A)) \<le> 1000"
      by (simp add: upper_all_def)
    ultimately show ?thesis
      using c(3) by simp
  qed
qed

lemma reader_init_inv: "pending_inv k (reader_init k) (prev_file_id (reader_init k)) []"
  by (simp add: pending_inv_def reader_init_def)

lemma slice_length: "length (record_slice k str j) \<le> 1000"
  by (simp add: record_slice_def)

lemma slice_full:
  assumes k: "1 \<le> k" "k \<le> 1000" and "Suc j < num_slices k (length str)"
  shows "length (record_slice k str j) = 1000"
proof -
  from assms(3) num_slices_iff [OF k] have "Suc j * (1001 - k) + (k - 1) < length str"
    by simp
  with k have "j * (1001 - k) + 1000 < length str"
    by simp
  then show ?thesis
    by (simp add: record_slice_def)
qed

lemma slice_next_start:
  assumes k: "1 \<le> k" "k \<le> 1000"
  shows "Suc j * (1001 - k) + (k - 1) = j * (1001 - k) + 1000"
  using k by simp

lemma slice_overlap:
  assumes k: "1 \<le> k" "k \<le> 1000" and "Suc j < num_slices k (length str)"
  shows "take (k - 1) (record_slice k str (Suc j)) = drop (1001 - k) (record_slice k str j)"
proof -
  have "drop (1001 - k) (record_slice k str j) =
        take (1000 - (1001 - k)) (drop (1001 - k + j * (1001 - k)) str)"
    by (simp add: record_slice_def drop_take)
  also have "1000 - (1001 - k) = k - 1"
    using k by simp
  also have "1001 - k + j * (1001 - k) = Suc j * (1001 - k)"
    by simp
  finally have "drop (1001 - k) (record_slice k str j) = take (k - 1) (drop (Suc j * (1001 - k)) str)" .
  moreover have "take (k - 1) (record_slice k str (Suc j)) = take (k - 1) (drop (Suc j * (1001 - k)) str)"
    using k by (simp add: record_slice_def)
  ultimately show ?thesis by simp
qed

lemma kmer_in_slice:
  assumes k: "1 \<le> k" "k \<le> 1000" and p: "p + k \<le> length str"
  shows "\<exists>j<num_slices k (length str). \<exists>q. q + k \<le> length (record_slice k str j) \<and>
           take k (drop q (record_slice k str j)) = take k (drop p str)"
proof -
  let ?d = "1001 - k"
  let ?j = "p div ?d"
  let ?q = "p mod ?d"
  from k have d: "0 < ?d" by simp
  have pq: "?j * ?d + ?q = p"
    by (rule div_mult_mod_eq)
  from d have q: "?q < ?d"
    by (rule mod_less_divisor)
  from pq p k have "?j * ?d + (k - 1) < length str"
    by linarith
  with num_slices_iff [OF k] have j: "?j < num_slices k (length str)"
    by simp
  from q k have qk: "?q + k \<le> 1000"
    by linarith
  from p pq have "?q + k \<le> length str - ?j * ?d"
    by linarith
  with qk have l: "?q + k \<le> length (record_slice k str ?j)"
    by (simp add: record_slice_def)
  have "take k (drop ?q (record_slice k str ?j)) = take k (take (1000 - ?q) (drop (?q + ?j * ?d) str))"
    by (simp add: record_slice_def drop_take)
  also have "\<dots> = take k (drop (?q + ?j * ?d) str)"
    using qk by (simp add: min_def)
  also have "?q + ?j * ?d = p"
    using pq by (simp only: add.commute)
  finally show ?thesis
    using j l by blast
qed

lemma upper_all_mem: "(x, f) \<in> set v \<Longrightarrow> (map toupper x, f) \<in> set (upper_all v)"
  by (induction v) (auto simp: upper_all_def)

lemma toupper_a: "toupper CHR ''a'' = CHR ''A''"
  by code_simp

lemma upt2: "[0..<2::nat] = [0, 1]"
  by (simp add: numeral_2_eq_2)

lemma example_slices:
  "record_slices 31 (replicate 1500 CHR ''a'') = [replicate 1000 CHR ''a'', replicate 530 CHR ''a'']"
proof -
  have "num_slices 31 1500 = 2"
    by (simp add: num_slices_def)
  then show ?thesis
    by (simp add: record_slices_def upt2 record_slice_def)
qed

lemma example_pairs:
  "upper_all (concat (map (record_pairs 31) [example_record])) =
     [(replicate 1000 CHR ''A'', 7), (replicate 530 CHR ''A'', 7)]"
  by (simp add: example_record_def record_pairs_def example_slices upper_all_def toupper_a)

text \<open>
  C9.  For a k-mer length \<open>1 \<le> k \<le> 1000\<close>, the calls of \<^verbatim>\<open>reading_function\<close> return, every
  chunk holds at most 1000 pairs, and the chunks together are, in order, the upper-cased pairs of
  the records, where a record longer than 1000 characters gives its slices: each slice has at
  most 1000 characters; a slice followed by another one has exactly 1000 characters and its last
  \<open>k - 1\<close> characters are the first \<open>k - 1\<close> characters of the next one; and every k-mer of the
  record (upper-cased) lies within one slice of some chunk, with the record's file index.
\<close>

theorem reading_function_slices:
  assumes k: "1 \<le> k" "k \<le> 1000"
    and recs: "\<forall>r\<in>set fp. length (fst r) < 2 ^ 63"
  shows "\<exists>chunks. read_chunks k fp (reader_init k) = Some (Inr chunks) \<and>
     (\<forall>c\<in>set chunks. length c \<le> 1000) \<and>
     concat chunks = upper_all (concat (map (record_pairs k) fp)) \<and>
     (\<forall>r\<in>set fp. 1000 < length (fst r) \<longrightarrow>
        (\<forall>j<num_slices k (length (fst r)). length (record_slice k (fst r) j) \<le> 1000) \<and>
        (\<forall>j. Suc j < num_slices k (length (fst r)) \<longrightarrow>
           length (record_slice k (fst r) j) = 1000 \<and>
           take (k - 1) (record_slice k (fst r) (Suc j)) =
             drop (1001 - k) (record_slice k (fst r) j)) \<and>
        (\<forall>p. p + k \<le> length (fst r) \<longrightarrow>
           (\<exists>c\<in>set chunks. \<exists>x. (x, snd r) \<in> set c \<and>
              (\<exists>q. q + k \<le> length x \<and>
                   take k (drop q x) = map toupper (take k (drop p (fst r)))))))"
proof -
  from read_chunks_spec [OF k recs reader_init_inv]
  obtain chunks where c: "read_chunks k fp (reader_init k) = Some (Inr chunks)"
    "concat chunks = upper_all (concat (map (record_pairs k) fp))"
    "\<forall>c\<in>set chunks. length c \<le> 1000"
    by auto
  have cover: "\<exists>c\<in>set chunks. \<exists>x. (x, snd r) \<in> set c \<and>
              (\<exists>q. q + k \<le> length x \<and>
                   take k (drop q x) = map toupper (take k (drop p (fst r))))"
    if r: "r \<in> set fp" "1000 < length (fst r)" and p: "p + k \<le> length (fst r)" for r p
  proof -
    from kmer_in_slice [OF k p]
    obtain j q where j: "j < num_slices k (length (fst r))"
      "q + k \<le> length (record_slice k (fst r) j)"
      "take k (drop q (record_slice k (fst r) j)) = take k (drop p (fst r))"
      by blast
    let ?x = "map toupper (record_slice k (fst r) j)"
    from j(1) r(2) have "(record_slice k (fst r) j, snd r) \<in> set (record_pairs k r)"
      by (simp add: record_pairs_def record_slices_def)
    with r(1) have "(record_slice k (fst r) j, snd r) \<in> set (concat (map (record_pairs k) fp))"
      by auto
    then have "(?x, snd r) \<in> set (upper_all (concat (map (record_pairs k) fp)))"
      by (rule upper_all_mem)
    with c(2) have "(?x, snd r) \<in> set (concat chunks)"
      by simp
    then obtain c where "c \<in> set chunks" "(?x, snd r) \<in> set c"
      by auto
    moreover have "q + k \<le> length ?x"
      using j(2) by simp
    moreover have "take k (drop q ?x) = map toupper (take k (drop p (fst r)))"
      using j(3) by (simp add: take_map drop_map)
    ultimately show ?thesis
      by blast
  qed
  have props: "\<forall>r\<in>set fp. 1000 < length (fst r) \<longrightarrow>
        (\<forall>j<num_slices k (length (fst r)). length (record_slice k (fst r) j) \<le> 1000) \<and>
        (\<forall>j. Suc j < num_slices k (length (fst r)) \<longrightarrow>
           length (record_slice k (fst r) j) = 1000 \<and>
           take (k - 1) (record_slice k (fst r) (Suc j)) =
             drop (1001 - k) (record_slice k (fst r) j)) \<and>
        (\<forall>p. p + k \<le> length (fst r) \<longrightarrow>
           (\<exists>c\<in>set chunks. \<exists>x. (x, snd r) \<in> set c \<and>
              (\<exists>q. q + k \<le> length x \<and>
                   take k (drop q x) = map toupper (take k (drop p (fst r))))))"
  proof (intro ballI impI conjI allI)
    fix r :: "string \<times> nat" and j
    show "length (record_slice k (fst r) j) \<le> 1000"
      by (rule slice_length)
  next
    fix r :: "string \<times> nat" and j
    assume "Suc j < num_slices k (length (fst r))"
    then show "length (record_slice k (fst r) j) = 1000"
      by (rule slice_full [OF k])
  next
    fix r :: "string \<times> nat" and j
    assume "Suc j < num_slices k (length (fst r))"
    then show "take (k - 1) (record_slice k (fst r) (Suc j)) =
             drop (1001 - k) (record_slice k (fst r) j)"
      by (rule slice_overlap [OF k])
  next
    fix r :: "string \<times> nat" and p
    assume "r \<in> set fp" "1000 < length (fst r)" "p + k \<le> length (fst r)"
    then show "\<exists>c\<in>set chunks. \<exists>x. (x, snd r) \<in> set c \<and>
              (\<exists>q. q + k \<le> length x \<and>
                   take k (drop q x) = map toupper (take k (drop p (fst r))))"
      by (rule cover)
  qed
  show ?thesis
    by (rule exI [of _ chunks]) (intro conjI c(1) c(3) c(2) props)
qed

text \<open>
  The record of 1500 characters with \<open>k = 31\<close>: two slices, of 1000 and 530 characters, the
  second starting at position 970.
\<close>

theorem reading_function_slices_witness:
  "(1::nat) \<le> 31 \<and> (31::nat) \<le> 1000 \<and> 
   length (fst example_record) < 2 ^ 63 \<and>
   1000 < length (fst example_record) \<and> 0 + 31 \<le> length (fst example_record) \<and>
   Suc 0 < num_slices 31 (length (fst example_record)) \<and>
   (\<exists>chunks. read_chunks 31 [example_record] (reader_init 31) = Some (Inr chunks) \<and>
      (\<forall>c\<in>set chunks. length c \<le> 1000) \<and>
      concat chunks = [(replicate 1000 CHR ''A'', 7), (replicate 530 CHR ''A'', 7)] \<and>
      length (record_slice 31 (fst example_record) 0) = 1000 \<and>
      take 30 (record_slice 31 (fst example_record) 1) =
        drop 970 (record_slice 31 (fst example_record) 0) \<and>
      (\<exists>c\<in>set chunks. \<exists>x. (x, 7) \<in> set c \<and>
         (\<exists>q. q + 31 \<le> length x \<and> take 31 (drop q x) = replicate 31 CHR ''A'')))"
proof -
  have k: "(1::nat) \<le> 31" "(31::nat) \<le> 1000"
    by simp_all
  have recs: "\<forall>r\<in>set [example_record]. length (fst r) < 2 ^ 63"
    by (simp add: example_record_def)
  have long: "1000 < length (fst example_record)" "0 + 31 \<le> length (fst example_record)"
    by (simp_all add: example_record_def)
  have two: "Suc 0 < num_slices 31 (length (fst example_record))"
    by (simp add: example_record_def num_slices_def)
  have km: "map toupper (take 31 (drop 0 (fst example_record))) = replicate 31 CHR ''A''"
    by (simp add: example_record_def toupper_a)
  from reading_function_slices [OF k recs]
  obtain chunks where c: "read_chunks 31 [example_record] (reader_init 31) = Some (Inr chunks)"
    "\<forall>c\<in>set chunks. length c \<le> 1000"
    "concat chunks = upper_all (concat (map (record_pairs 31) [example_record]))"
    "\<forall>r\<in>set [example_record]. 1000 < length (fst r) \<longrightarrow>
        (\<forall>j<num_slices 31 (length (fst r)). length (record_slice 31 (fst r) j) \<le> 1000) \<and>
        (\<forall>j. Suc j < num_slices 31 (length (fst r)) \<longrightarrow>
           length (record_slice 31 (fst r) j) = 1000 \<and>
           take (31 - 1) (record_slice 31 (fst r) (Suc j)) =
             drop (1001 - 31) (record_slice 31 (fst r) j)) \<and>
        (\<forall>p. p + 31 \<le> length (fst r) \<longrightarrow>
           (\<exists>c\<in>set chunks. \<exists>x. (x, snd r) \<in> set c \<and>
              (\<exists>q. q + 31 \<le> length x \<and>
                   take 31 (drop q x) = map toupper (take 31 (drop p (fst r))))))"
    by (elim exE conjE) (rule that)
  from c(4) long(1) have
    d: "\<forall>j. Suc j < num_slices 31 (length (fst example_record)) \<longrightarrow>
           length (record_slice 31 (fst example_record) j) = 1000 \<and>
           take (31 - 1) (record_slice 31 (fst example_record) (Suc j)) =
             drop (1001 - 31) (record_slice 31 (fst example_record) j)"
    and e: "\<forall>p. p + 31 \<le> length (fst example_record) \<longrightarrow>
           (\<exists>c\<in>set chunks. \<exists>x. (x, snd example_record) \<in> set c \<and>
              (\<exists>q. q + 31 \<le> length x \<and>
                   take 31 (drop q x) = map toupper (take 31 (drop p (fst example_record)))))"
    by simp_all
  from d two have d0: "length (record_slice 31 (fst example_record) 0) = 1000"
    "take 30 (record_slice 31 (fst example_record) 1) =
        drop 970 (record_slice 31 (fst example_record) 0)"
    by simp_all
  from e long(2) have "\<exists>c\<in>set chunks. \<exists>x. (x, snd example_record) \<in> set c \<and>
              (\<exists>q. q + 31 \<le> length x \<and>
                   take 31 (drop q x) = map toupper (take 31 (drop 0 (fst example_record))))"
    by blast
  then have e0: "\<exists>c\<in>set chunks. \<exists>x. (x, 7) \<in> set c \<and>
         (\<exists>q. q + 31 \<le> length x \<and> take 31 (drop q x) = replicate 31 CHR ''A'')"
    unfolding km by (simp add: example_record_def)
  from c(1,2) c(3) [unfolded example_pairs] d0 e0 
  have "\<exists>chunks. read_chunks 31 [example_record] (reader_init 31) = Some (Inr chunks) \<and>
      (\<forall>c\<in>set chunks. length c \<le> 1000) \<and>
      concat chunks = [(replicate 1000 CHR ''A'', 7), (replicate 530 CHR ''A'', 7)] \<and>
      length (record_slice 31 (fst example_record) 0) = 1000 \<and>
      take 30 (record_slice 31 (fst example_record) 1) =
        drop 970 (record_slice 31 (fst example_record) 0) \<and>
      (\<exists>c\<in>set chunks. \<exists>x. (x, 7) \<in> set c \<and>
         (\<exists>q. q + 31 \<le> length x \<and> take 31 (drop q x) = replicate 31 CHR ''A''))"
    by blast
  moreover from recs have "length (fst example_record) < 2 ^ 63"
    by simp
  ultimately show ?thesis
    using k long two by (intro conjI)
qed

section \<open>The driver of the colored graph (ColoredCDBG::build, mapColors, write)\<close>

text \<open>The base class \<^verbatim>\<open>CompactedDBG\<close>, the color-set passes and \<^verbatim>\<open>DataStorage::write\<close> are
  parameters: each maps the state of the underlying graph to its result and the new state.\<close>

record CCDBG_Build_opt =
  filename_seq_in :: "string list"
  filename_colors_in :: string
  nb_threads :: nat

record 'g ColoredCDBG =
  invalid :: bool
  cdbg :: 'g

record 'g collaborators =
  CompactedDBG_build :: "CCDBG_Build_opt \<Rightarrow> 'g \<Rightarrow> bool \<times> 'g"
  run_initColorSets :: "CCDBG_Build_opt \<Rightarrow> 'g \<Rightarrow> 'g"
  run_buildColorSets :: "nat \<Rightarrow> 'g \<Rightarrow> 'g"
  run_readColorSets :: "CCDBG_Build_opt \<Rightarrow> 'g \<Rightarrow> bool \<times> 'g"
  CompactedDBG_write :: "string \<Rightarrow> nat \<Rightarrow> bool \<Rightarrow> bool \<Rightarrow> 'g \<Rightarrow> bool \<times> 'g"
  DataStorage_write :: "string \<Rightarrow> nat \<Rightarrow> bool \<Rightarrow> 'g \<Rightarrow> bool \<times> 'g"

definition ColoredCDBG_build ::
  "'g collaborators \<Rightarrow> CCDBG_Build_opt \<Rightarrow> 'g ColoredCDBG \<Rightarrow> 'g ColoredCDBG \<times> bool" where
  "ColoredCDBG_build c opt G =
     (let G' = (if \<not> invalid G
                then (let r = CompactedDBG_build c opt (cdbg G)
                      in G\<lparr>invalid := \<not> fst r, cdbg := snd r\<rparr>)
                else G)
      in (G', \<not> invalid G'))"

definition ColoredCDBG_mapColors ::
  "'g collaborators \<Rightarrow> CCDBG_Build_opt \<Rightarrow> 'g ColoredCDBG \<Rightarrow> 'g ColoredCDBG \<times> bool" where
  "ColoredCDBG_mapColors c opt G =
     (let G' = (if \<not> invalid G then
                  (if length (filename_colors_in opt) = 0
                   then G\<lparr>cdbg := run_buildColorSets c (nb_threads opt) (run_initColorSets c opt (cdbg G))\<rparr>
                   else (let r = run_readColorSets c opt (cdbg G)
                         in G\<lparr>invalid := \<not> fst r, cdbg := snd r\<rparr>))
                else G)
      in (G', \<not> invalid G'))"

definition ColoredCDBG_write ::
  "'g collaborators \<Rightarrow> string \<Rightarrow> nat \<Rightarrow> bool \<Rightarrow> 'g ColoredCDBG \<Rightarrow> 'g ColoredCDBG \<times> bool" where
  "ColoredCDBG_write c prefix_output_filename n_threads verbose G =
     (let r = CompactedDBG_write c prefix_output_filename n_threads True verbose (cdbg G)
      in if \<not> fst r then (G\<lparr>cdbg := snd r\<rparr>, False)
         else (let r' = DataStorage_write c prefix_output_filename n_threads verbose (snd r)
               in (G\<lparr>cdbg := snd r'\<rparr>, fst r')))"

text \<open>Collaborators over a graph state that only counts the files written; colors cannot be read.\<close>

definition example_collaborators :: "nat collaborators" where
  "example_collaborators =
     \<lparr>CompactedDBG_build = (\<lambda>opt g. (True, g)),
      run_initColorSets = (\<lambda>opt g. g),
      run_buildColorSets = (\<lambda>n g. g),
      run_readColorSets = (\<lambda>opt g. (False, g)),
      CompactedDBG_write = (\<lambda>p n gfa v g. (True, g + 1)),
      DataStorage_write = (\<lambda>p n v g. (True, g + 1))\<rparr>"

definition example_opt :: CCDBG_Build_opt where
  "example_opt = \<lparr>filename_seq_in = [''a.fasta''], filename_colors_in = ''colors.bfg'', nb_threads = 1\<rparr>"

lemma build_failure_sets_invalid:
  "ColoredCDBG_build c opt G = (G', False) \<Longrightarrow> invalid G'"
  by (auto simp: ColoredCDBG_build_def Let_def split: if_splits)

lemma build_invalid_noop:
  "invalid G \<Longrightarrow> ColoredCDBG_build c opt G = (G, False)"
  by (simp add: ColoredCDBG_build_def)

lemma mapColors_invalid_noop:
  "invalid G \<Longrightarrow> ColoredCDBG_mapColors c opt G = (G, False)"
  by (simp add: ColoredCDBG_mapColors_def)

lemma write_ignores_invalid:
  "ColoredCDBG_write c p n v (G\<lparr>invalid := b\<rparr>) =
     (fst (ColoredCDBG_write c p n v G)\<lparr>invalid := b\<rparr>, snd (ColoredCDBG_write c p n v G))"
  by (simp add: ColoredCDBG_write_def Let_def)

text \<open>C3. A failed \<^verbatim>\<open>build\<close> sets \<^verbatim>\<open>invalid\<close>, and \<^verbatim>\<open>build\<close> and \<^verbatim>\<open>mapColors\<close> on an
  invalid graph change nothing and return false (the three lemmas above). \<^verbatim>\<open>write\<close> never reads
  the flag: on a graph that \<^verbatim>\<open>mapColors\<close> has just marked invalid, with base-class writers that
  succeed, it writes both files and returns true.\<close>

theorem write_on_invalid_graph:
  "ColoredCDBG_mapColors example_collaborators example_opt \<lparr>invalid = False, cdbg = 0\<rparr> =
     (\<lparr>invalid = True, cdbg = 0\<rparr>, False) \<and>
   ColoredCDBG_mapColors example_collaborators example_opt \<lparr>invalid = True, cdbg = 0\<rparr> =
     (\<lparr>invalid = True, cdbg = 0\<rparr>, False) \<and>
   ColoredCDBG_write example_collaborators ''out'' 1 False \<lparr>invalid = True, cdbg = 0\<rparr> =
     (\<lparr>invalid = True, cdbg = 2\<rparr>, True)"
  by (simp add: ColoredCDBG_mapColors_def ColoredCDBG_write_def example_collaborators_def
      example_opt_def)

section \<open>The unitig index (UnitigMapper)\<close>

text \<open>
  Modelled from the spec: the classes \<^verbatim>\<open>Kmer\<close> and \<^verbatim>\<open>Minimizer\<close> are not among the sources.  A k-mer
  is its string over \<^verbatim>\<open>ACGT\<close>; \<^verbatim>\<open>twin\<close> is the reverse complement, \<^verbatim>\<open><\<close> the lexicographic
  order, \<^verbatim>\<open>rep\<close> the smaller of a k-mer and its twin, \<^verbatim>\<open>forwardBase\<close> drops the first base and
  appends one, \<^verbatim>\<open>backwardBase\<close> drops the last base and prepends one.
\<close>

type_synonym Kmer = string

definition complement :: "char \<Rightarrow> char" where
  "complement c =
     (if c = CHR ''A'' then CHR ''T'' else if c = CHR ''C'' then CHR ''G''
      else if c = CHR ''G'' then CHR ''C'' else CHR ''A'')"

definition twin :: "Kmer \<Rightarrow> Kmer" where
  "twin km = rev (map complement km)"

definition base_code :: "char \<Rightarrow> nat" where
  "base_code c =
     (if c = CHR ''A'' then 0 else if c = CHR ''C'' then 1 else if c = CHR ''G'' then 2 else 3)"

fun kmer_less :: "Kmer \<Rightarrow> Kmer \<Rightarrow> bool" where
  "kmer_less [] [] = False"
| "kmer_less [] (y # ys) = True"
| "kmer_less (x # xs) [] = False"
| "kmer_less (x # xs) (y # ys) =
     (base_code x < base_code y \<or> (base_code x = base_code y \<and> kmer_less xs ys))"

definition rep :: "Kmer \<Rightarrow> Kmer" where
  "rep km = (if kmer_less km (twin km) then km else twin km)"

definition forwardBase :: "Kmer \<Rightarrow> char \<Rightarrow> Kmer" where
  "forwardBase km b = tl km @ [b]"

definition backwardBase :: "Kmer \<Rightarrow> char \<Rightarrow> Kmer" where
  "backwardBase km b = b # butlast km"

text \<open>
  Modelled from the spec: the masks of a bin entry are declared in a header that is not among the
  sources.  An entry is \<^verbatim>\<open>unitig_id << 32 | flags | pos\<close>: the id field is the upper half,
  \<^verbatim>\<open>MASK_CONTIG_TYPE\<close> is the top bit of the lower half and the position the rest of it.
\<close>

definition RESERVED_ID :: size_t where
  "RESERVED_ID = 0xFFFFFFFF"

definition MASK_CONTIG_ID :: size_t where
  "MASK_CONTIG_ID = 0xFFFFFFFF00000000"

definition MASK_CONTIG_TYPE :: size_t where
  "MASK_CONTIG_TYPE = 0x80000000"

definition MASK_CONTIG_POS :: size_t where
  "MASK_CONTIG_POS = 0x7FFFFFFF"

text \<open>
  Modelled from the spec: \<^verbatim>\<open>UnitigMap\<close>, the result of a lookup.  The field \<^verbatim>\<open>size\<close> is called
  \<open>size_um\<close>.  The eight-argument constructor builds a non-empty result, the constructor
  \<^verbatim>\<open>UnitigMap(it_h)\<close> an empty one that records the last bin consulted.
\<close>

record UnitigMap =
  pos_unitig :: size_t
  pos_min :: size_t
  dist :: size_t
  len :: size_t
  size_um :: size_t
  strand :: bool
  isEmpty :: bool
  isShort :: bool
  isAbundant :: bool

definition UnitigMap_make ::
  "size_t \<Rightarrow> size_t \<Rightarrow> size_t \<Rightarrow> size_t \<Rightarrow> size_t \<Rightarrow> bool \<Rightarrow> bool \<Rightarrow> bool \<Rightarrow> UnitigMap" where
  "UnitigMap_make p_unitig p_min i l sz short abundance strd =
     \<lparr>pos_unitig = p_unitig, pos_min = p_min, dist = i, len = l, size_um = sz, strand = strd,
      isEmpty = False, isShort = short, isAbundant = abundance\<rparr>"

definition UnitigMap_empty :: "size_t \<Rightarrow> UnitigMap" where
  "UnitigMap_empty p_min =
     \<lparr>pos_unitig = 0, pos_min = p_min, dist = 0, len = 1, size_um = 0, strand = True,
      isEmpty = True, isShort = False, isAbundant = False\<rparr>"

text \<open>
  Modelled from the spec: the coverage of a unitig (\<^verbatim>\<open>CompressedCoverage\<close>) with its per-position
  counters, a unitig with its sequence as a string (\<^verbatim>\<open>CompressedSequence\<close>), and a result of the
  minimizer iterator.  The iterator itself (\<^verbatim>\<open>preAllocMinHashIterator<RepHash>\<close>) is a parameter:
  \<open>min_results\<close> are the records \<^verbatim>\<open>*it_min\<close> yields for the window of a k-mer, \<open>getNewMin\<close> is
  \<^verbatim>\<open>it_min.getNewMin(mhr)\<close>.
\<close>

record CompressedCoverage =
  isFull :: bool
  cov_full :: nat
  covs :: "nat list"

record Unitig =
  seq :: string
  coveragesum :: nat
  ccov :: CompressedCoverage

record minHashResult =
  hash :: size_t
  pos :: size_t

record minHashIterator =
  min_results :: "string \<Rightarrow> minHashResult list"
  getNewMin :: "string \<Rightarrow> minHashResult \<Rightarrow> minHashResult"

text \<open>
  The state of a \<^verbatim>\<open>UnitigMapper\<close>.  A slot of \<^verbatim>\<open>v_unitigs\<close> is a pointer, \<open>None\<close> when it is null;
  dereferencing it, and indexing a vector outside its bounds, is undefined in the source and
  \<open>None\<close> in the model.
\<close>

record UnitigMapper =
  v_unitigs :: "Unitig option list"
  v_kmers :: "(Kmer \<times> CompressedCoverage) list"
  h_kmers_ccov :: "(Kmer, CompressedCoverage) KmerHashTable"
  hmap_min_unitigs :: "(Kmer, size_t list) KmerHashTable"

text \<open>\<^verbatim>\<open>Minimizer(&km_tmp[p]).rep()\<close> and \<^verbatim>\<open>seq.compareKmer(p, km)\<close>.\<close>

definition Minimizer_rep_at :: "nat \<Rightarrow> string \<Rightarrow> size_t \<Rightarrow> Kmer" where
  "Minimizer_rep_at g s p = rep (take g (drop (unat p) s))"

definition compareKmer :: "nat \<Rightarrow> string \<Rightarrow> size_t \<Rightarrow> Kmer \<Rightarrow> bool" where
  "compareKmer k s p km = (take k (drop (unat p) s) = km)"

text \<open>
  A \<^verbatim>\<open>for\<close> loop over a list whose body either leaves the loop (\<open>Inl\<close>: a \<^verbatim>\<open>return\<close> or a
  \<^verbatim>\<open>break\<close>) or continues with a new state (\<open>Inr\<close>).
\<close>

fun for_loop :: "('a \<Rightarrow> 's \<Rightarrow> ('r + 's) option) \<Rightarrow> 'a list \<Rightarrow> 's \<Rightarrow> ('r + 's) option" where
  "for_loop body [] s = Some (Inr s)"
| "for_loop body (x # xs) s =
     Option.bind (body x s) (\<lambda>r. case r of Inl y \<Rightarrow> Some (Inl y) | Inr s' \<Rightarrow> for_loop body xs s')"

text \<open>
  \<^verbatim>\<open>UnitigMapper::find(km, extremities_only)\<close>.  \<open>find_entry\<close> is the body of the loop over the
  entries of a bin; its state is the iterator \<^verbatim>\<open>it\<close> and \<^verbatim>\<open>mhr\<close>.  \<open>find_while\<close> is the loop
  \<^verbatim>\<open>while (it != hmap_min_unitigs.end())\<close>, which returns a result or the last \<^verbatim>\<open>it_h\<close>, and
  \<open>find_results\<close> the loop over the records of the minimizer iterator.  \<^verbatim>\<open>pos_match\<close> is a
  64-bit word: \<open>0 \<le>s\<close> reads it as the \<^verbatim>\<open>int64_t\<close> of the source, the other comparisons are
  unsigned as there.
\<close>

definition find_entry ::
  "UnitigMapper \<Rightarrow> minHashIterator \<Rightarrow> nat \<Rightarrow> nat \<Rightarrow> Kmer \<Rightarrow> bool \<Rightarrow> minHashResult \<Rightarrow> size_t \<Rightarrow>
   size_t \<Rightarrow> size_t \<times> minHashResult \<Rightarrow> (UnitigMap + size_t \<times> minHashResult) option" where
  "find_entry M it_min k g km extremities_only min_h_res it_h unitig_id_pos st =
     (let km_twin = twin km;
          km_rep = (if kmer_less km km_twin then km else km_twin);
          diff = (of_nat k - of_nat g :: size_t);
          unitig_id = drop_bit 32 unitig_id_pos
      in
      if unitig_id = RESERVED_ID then
        Option.bind
          (if unitig_id_pos AND RESERVED_ID \<noteq> 0 then
             Option.bind (KmerHashTable_find (h_kmers_ccov M) km_rep) (\<lambda>it_km.
               if it_km \<noteq> KmerHashTable_end (h_kmers_ccov M)
               then Some (Some (UnitigMap_make it_km it_h 0 1 (of_nat k) False True (km = km_rep)))
               else Some None)
           else Some None)
          (\<lambda>r. case r of
             Some um \<Rightarrow> Some (Inl um)
           | None \<Rightarrow>
               if unitig_id_pos AND MASK_CONTIG_TYPE = MASK_CONTIG_TYPE then
                 (let mhr_tmp = getNewMin it_min km (snd st) in
                  if hash mhr_tmp \<noteq> hash (snd st) then
                    Option.bind
                      (KmerHashTable_find (hmap_min_unitigs M) (Minimizer_rep_at g km (pos mhr_tmp)))
                      (\<lambda>it. Some (Inr (it, mhr_tmp)))
                  else Some (Inr st))
               else Some (Inr st))
      else
        (let isShort = (unitig_id_pos AND MASK_CONTIG_TYPE \<noteq> 0);
             unitig_id_pos = unitig_id_pos AND MASK_CONTIG_POS
         in
         if isShort then
           (if pos min_h_res = unitig_id_pos then
              (if length (v_kmers M) \<le> unat unitig_id then None
               else if fst (v_kmers M ! unat unitig_id) = km_rep
               then Some (Inl (UnitigMap_make unitig_id it_h 0 1 (of_nat k) True False True))
               else Some (Inr st))
            else if pos min_h_res = diff - unitig_id_pos then
              (if length (v_kmers M) \<le> unat unitig_id then None
               else if fst (v_kmers M ! unat unitig_id) = km_rep
               then Some (Inl (UnitigMap_make unitig_id it_h 0 1 (of_nat k) True False False))
               else Some (Inr st))
            else Some (Inr st))
         else
           (if length (v_unitigs M) \<le> unat unitig_id then None
            else case v_unitigs M ! unat unitig_id of
              None \<Rightarrow> None
            | Some u \<Rightarrow>
               (let len = (of_nat (length (seq u)) - of_nat k :: size_t);
                    pos_match = unitig_id_pos - pos min_h_res;
                    pos_match' = unitig_id_pos - diff + pos min_h_res
                in
                if extremities_only then
                  (if (pos_match = 0 \<or> pos_match = len) \<and> compareKmer k (seq u) pos_match km
                   then Some (Inl (UnitigMap_make unitig_id it_h pos_match 1 (len + of_nat k)
                                     False False True))
                   else if (pos_match' = 0 \<or> pos_match' = len) \<and>
                           compareKmer k (seq u) pos_match' km_twin
                   then Some (Inl (UnitigMap_make unitig_id it_h pos_match' 1 (len + of_nat k)
                                     False False False))
                   else Some (Inr st))
                else
                  (if 0 \<le>s pos_match \<and> pos_match \<le> len \<and> compareKmer k (seq u) pos_match km
                   then Some (Inl (UnitigMap_make unitig_id it_h pos_match 1 (len + of_nat k)
                                     False False True))
                   else if 0 \<le>s pos_match' \<and> pos_match' \<le> len \<and>
                           compareKmer k (seq u) pos_match' km_twin
                   then Some (Inl (UnitigMap_make unitig_id it_h pos_match' 1 (len + of_nat k)
                                     False False False))
                   else Some (Inr st))))))"

partial_function (option) find_while ::
  "UnitigMapper \<Rightarrow> minHashIterator \<Rightarrow> nat \<Rightarrow> nat \<Rightarrow> Kmer \<Rightarrow> bool \<Rightarrow> minHashResult \<Rightarrow>
   size_t \<Rightarrow> minHashResult \<Rightarrow> size_t \<Rightarrow> (UnitigMap + size_t) option" where
  "find_while M it_min k g km extremities_only min_h_res it mhr it_h =
     (if it = KmerHashTable_end (hmap_min_unitigs M) then Some (Inr it_h)
      else if length (table (hmap_min_unitigs M)) \<le> unat it then None
      else
        Option.bind
          (for_loop (find_entry M it_min k g km extremities_only min_h_res it)
             (snd (table (hmap_min_unitigs M) ! unat it))
             (KmerHashTable_end (hmap_min_unitigs M), mhr))
          (\<lambda>r. case r of
             Inl um \<Rightarrow> Some (Inl um)
           | Inr st \<Rightarrow>
               find_while M it_min k g km extremities_only min_h_res (fst st) (snd st) it))"

fun find_results ::
  "UnitigMapper \<Rightarrow> minHashIterator \<Rightarrow> nat \<Rightarrow> nat \<Rightarrow> Kmer \<Rightarrow> bool \<Rightarrow> minHashResult list \<Rightarrow>
   size_t \<Rightarrow> UnitigMap option" where
  "find_results M it_min k g km extremities_only [] it_h = Some (UnitigMap_empty it_h)"
| "find_results M it_min k g km extremities_only (min_h_res # rs) it_h =
     Option.bind (KmerHashTable_find (hmap_min_unitigs M) (Minimizer_rep_at g km (pos min_h_res)))
       (\<lambda>it. Option.bind (find_while M it_min k g km extremities_only min_h_res it min_h_res it_h)
          (\<lambda>r. case r of
             Inl um \<Rightarrow> Some um
           | Inr it_h' \<Rightarrow> find_results M it_min k g km extremities_only rs it_h'))"

definition UnitigMapper_find ::
  "UnitigMapper \<Rightarrow> minHashIterator \<Rightarrow> nat \<Rightarrow> nat \<Rightarrow> Kmer \<Rightarrow> bool \<Rightarrow> UnitigMap option" where
  "UnitigMapper_find M it_min k g km extremities_only =
     find_results M it_min k g km extremities_only (min_results it_min km) 0"


text \<open>
  Modelled from the spec: a minimizer iterator for the examples, which takes the canonical g-mer
  that is least in the lexicographic order; the hash of a g-mer is its rank in that order, and
  \<open>getNewMin\<close> moves to the least g-mer of the window above the current one.
\<close>

definition kmer_code :: "Kmer \<Rightarrow> nat" where
  "kmer_code km = foldl (\<lambda>a c. 4 * a + base_code c) 0 km"

definition gmer_codes :: "nat \<Rightarrow> string \<Rightarrow> nat list" where
  "gmer_codes g s = map (\<lambda>p. kmer_code (rep (take g (drop p s)))) [0..<length s + 1 - g]"

definition least_results :: "nat list \<Rightarrow> minHashResult list" where
  "least_results cs =
     map (\<lambda>p. \<lparr>hash = of_nat (cs ! p), pos = of_nat p\<rparr>)
       (filter (\<lambda>p. cs ! p = fold min cs (hd cs)) [0..<length cs])"

definition lex_minHashIterator :: "nat \<Rightarrow> minHashIterator" where
  "lex_minHashIterator g =
     \<lparr>min_results = (\<lambda>s. least_results (gmer_codes g s)),
      getNewMin = (\<lambda>s mhr.
         case least_results (filter (\<lambda>c. unat (hash mhr) < c) (gmer_codes g s)) of
           [] \<Rightarrow> mhr
         | r # rs \<Rightarrow> \<lparr>hash = hash r,
                      pos = of_nat (hd (filter (\<lambda>p. gmer_codes g s ! p = unat (hash r))
                                         [0..<length (gmer_codes g s)]))\<rparr>)\<rparr>"

text \<open>
  The graph after \<^verbatim>\<open>addUnitig("CAAAG", 0)\<close> with \<open>k = 5\<close> and \<open>g = 3\<close>: the k-mer is canonical, its
  minimizer \<^verbatim>\<open>AAA\<close> is at position 1, and the bin of \<^verbatim>\<open>AAA\<close> holds the entry of short unitig 0 at
  position 1.
\<close>

definition cov_one :: CompressedCoverage where
  "cov_one = \<lparr>isFull = False, cov_full = 2, covs = [1]\<rparr>"

definition example_short_graph :: UnitigMapper where
  "example_short_graph =
     \<lparr>v_unitigs = [],
      v_kmers = [(''CAAAG'', cov_one)],
      h_kmers_ccov =
        \<lparr>hasher = (\<lambda>km. 0), table = replicate 4 (''-'', cov_one), size_tbl = 4, pop = 0,
         num_empty = 4, empty_val = (''-'', cov_one), deleted = (''+'', cov_one)\<rparr>,
      hmap_min_unitigs =
        \<lparr>hasher = (\<lambda>minz. 0), table = [(''AAA'', [0x80000001]), (''-'', []), (''-'', []), (''-'', [])],
         size_tbl = 4, pop = 1, num_empty = 3, empty_val = (''-'', []), deleted = (''+'', [])\<rparr>\<rparr>"

text \<open>
  Modelled from the spec: the array \<^verbatim>\<open>alpha\<close> of the four bases and \<^verbatim>\<open>seq.getKmer(i)\<close>.
\<close>

definition alpha :: "char list" where
  "alpha = ''ACGT''"

definition getKmer :: "nat \<Rightarrow> string \<Rightarrow> nat \<Rightarrow> Kmer" where
  "getKmer k s i = take k (drop i s)"

text \<open>
  The head k-mer of the unitig a \<^verbatim>\<open>UnitigMap\<close> points to, as \<^verbatim>\<open>checkJoin\<close> computes it for
  \<^verbatim>\<open>cm_cand\<close> and for \<^verbatim>\<open>cm_a\<close>.
\<close>

definition unitig_head :: "UnitigMapper \<Rightarrow> nat \<Rightarrow> UnitigMap \<Rightarrow> Kmer option" where
  "unitig_head M k cm =
     (if isShort cm then
        (if length (v_kmers M) \<le> unat (pos_unitig cm) then None
         else Some (fst (v_kmers M ! unat (pos_unitig cm))))
      else if isAbundant cm then
        Option.bind (KmerHashTable_find_h (h_kmers_ccov M) (pos_unitig cm)) (\<lambda>it.
          if length (table (h_kmers_ccov M)) \<le> unat it then None
          else Some (fst (table (h_kmers_ccov M) ! unat it)))
      else
        (if length (v_unitigs M) \<le> unat (pos_unitig cm) then None
         else map_option (\<lambda>u. getKmer k (seq u) 0) (v_unitigs M ! unat (pos_unitig cm))))"

text \<open>
  \<^verbatim>\<open>UnitigMapper::checkJoin(a, cm_a, b)\<close>.  \<open>fw_step\<close> and \<open>bw_step\<close> are the bodies of the two
  loops over \<^verbatim>\<open>alpha\<close>, which count the extensions found and \<^verbatim>\<open>break\<close> at the second one.  The
  result is the returned boolean and the value of \<^verbatim>\<open>b\<close> afterwards.
\<close>

definition fw_step ::
  "UnitigMapper \<Rightarrow> minHashIterator \<Rightarrow> nat \<Rightarrow> nat \<Rightarrow> Kmer \<Rightarrow> char \<Rightarrow> nat \<times> Kmer \<times> UnitigMap \<Rightarrow>
   (nat \<times> Kmer \<times> UnitigMap + nat \<times> Kmer \<times> UnitigMap) option" where
  "fw_step M it_min k g a c st =
     (let fw = forwardBase a c in
      Option.bind (UnitigMapper_find M it_min k g fw True) (\<lambda>cm_cand_tmp.
        if \<not> isEmpty cm_cand_tmp then
          (if fst st + 1 > 1 then Some (Inl (fst st + 1, snd st))
           else Some (Inr (fst st + 1, fw, cm_cand_tmp)))
        else Some (Inr st)))"

definition bw_step ::
  "UnitigMapper \<Rightarrow> minHashIterator \<Rightarrow> nat \<Rightarrow> nat \<Rightarrow> Kmer \<Rightarrow> char \<Rightarrow> nat \<Rightarrow> (nat + nat) option" where
  "bw_step M it_min k g fw_cpy c bw_count =
     (let fw = forwardBase fw_cpy c in
      Option.bind (UnitigMapper_find M it_min k g fw True) (\<lambda>cm_cand_tmp.
        if \<not> isEmpty cm_cand_tmp then
          (if bw_count + 1 > 1 then Some (Inl (bw_count + 1)) else Some (Inr (bw_count + 1)))
        else Some (Inr bw_count)))"

definition loop_state :: "('s + 's) \<Rightarrow> 's" where
  "loop_state r = (case r of Inl s \<Rightarrow> s | Inr s \<Rightarrow> s)"

definition checkJoin ::
  "UnitigMapper \<Rightarrow> minHashIterator \<Rightarrow> nat \<Rightarrow> nat \<Rightarrow> Kmer \<Rightarrow> UnitigMap \<Rightarrow> Kmer \<Rightarrow> (bool \<times> Kmer) option" where
  "checkJoin M it_min k g a cm_a b =
     Option.bind (for_loop (fw_step M it_min k g a) alpha (0, [], UnitigMap_empty 0)) (\<lambda>r.
       let fw_count = fst (loop_state r);
           fw_cand = fst (snd (loop_state r));
           cm_cand = snd (snd (loop_state r))
       in
       if fw_count = 1 then
         Option.bind (unitig_head M k cm_cand) (\<lambda>cand_head.
         Option.bind (unitig_head M k cm_a) (\<lambda>ac_head.
           if cand_head \<noteq> ac_head then
             (let fw_cpy = twin fw_cand in
              Option.bind (for_loop (bw_step M it_min k g fw_cpy) alpha 0) (\<lambda>r'.
                let bw_count = loop_state r' in
                if bw_count = 1 then
                  (if cand_head = fw_cand then Some (True, fw_cand)
                   else
                     Option.bind
                       (if isShort cm_cand \<or> isAbundant cm_cand then Some cand_head
                        else if length (v_unitigs M) \<le> unat (pos_unitig cm_cand) then None
                        else map_option (\<lambda>u. getKmer k (seq u) (length (seq u) - k))
                               (v_unitigs M ! unat (pos_unitig cm_cand)))
                       (\<lambda>candLast.
                          if twin candLast = fw_cand then Some (True, fw_cand) else Some (True, b)))
                else Some (False, b)))
           else Some (False, b)))
       else Some (False, b))"

text \<open>
  A graph with \<open>k = 3\<close> and \<open>g = 2\<close>: the long unitig \<^verbatim>\<open>AAGTC\<close> (bins \<^verbatim>\<open>AA\<close> at position 0 and
  \<^verbatim>\<open>AC\<close> at position 2) and the short unitig \<^verbatim>\<open>ACG\<close> (bin \<^verbatim>\<open>AC\<close> at position 0).
\<close>

definition example_join_graph :: UnitigMapper where
  "example_join_graph =
     \<lparr>v_unitigs = [Some \<lparr>seq = ''AAGTC'', coveragesum = 6, ccov = cov_one\<rparr>],
      v_kmers = [(''ACG'', cov_one)],
      h_kmers_ccov =
        \<lparr>hasher = (\<lambda>km. 0), table = replicate 4 (''-'', cov_one), size_tbl = 4, pop = 0,
         num_empty = 4, empty_val = (''-'', cov_one), deleted = (''+'', cov_one)\<rparr>,
      hmap_min_unitigs =
        \<lparr>hasher = (\<lambda>minz. 0),
         table = [(''AA'', [0]), (''AC'', [2, 0x80000000]), (''-'', []), (''-'', [])],
         size_tbl = 4, pop = 2, num_empty = 2, empty_val = (''-'', []), deleted = (''+'', [])\<rparr>\<rparr>"

text \<open>
  The segment lines of \<^verbatim>\<open>UnitigMapper::writeGFA\<close>.  A line of the output is kept with its
  fields: the id, the sequence, \<^verbatim>\<open>LN:i:\<close> and \<^verbatim>\<open>XC:i:\<close>.  The iterator of \<^verbatim>\<open>h_kmers_ccov\<close> visits
  the stored pairs in the order of their slots.
\<close>

definition covAt :: "CompressedCoverage \<Rightarrow> nat \<Rightarrow> nat" where
  "covAt c i = covs c ! i"

datatype gfa_line = H_line | S_line nat string nat nat

definition KmerHashTable_entries :: "('k, 'v) KmerHashTable \<Rightarrow> ('k \<times> 'v) list" where
  "KmerHashTable_entries T = filter (occupied T) (take (unat (size_tbl T)) (table T))"

definition kmer_XC :: "CompressedCoverage \<Rightarrow> nat" where
  "kmer_XC c = (if isFull c then cov_full c else covAt c 0)"

definition writeGFA_S :: "nat \<Rightarrow> UnitigMapper \<Rightarrow> gfa_line list option" where
  "writeGFA_S k M =
     (let v_unitigs_sz = length (v_unitigs M);
          v_kmers_sz = length (v_kmers M);
          id0 = v_unitigs_sz + v_kmers_sz + 1;
          long_lines = those (map (\<lambda>labelA.
                           map_option (\<lambda>unitig. S_line labelA (seq unitig) (length (seq unitig))
                                                  (coveragesum unitig))
                             (v_unitigs M ! (labelA - 1)))
                         [1..<v_unitigs_sz + 1]);
          short_lines = map (\<lambda>labelA. let p = v_kmers M ! (labelA - 1)
                                       in S_line (labelA + v_unitigs_sz) (fst p) k (kmer_XC (snd p)))
                          [1..<v_kmers_sz + 1];
          abundant_lines =
            snd (fold (\<lambda>p (id, ls). (id + 1, ls @ [S_line (id + 1) (fst p) k (kmer_XC (snd p))]))
                   (KmerHashTable_entries (h_kmers_ccov M)) (id0, []))
      in map_option (\<lambda>ls. H_line # ls @ short_lines @ abundant_lines) long_lines)"

fun S_id :: "gfa_line \<Rightarrow> nat" where
  "S_id (S_line i _ _ _) = i"
| "S_id H_line = 0"

text \<open>A graph with one long, one short and two abundant unitigs (\<open>k = 3\<close>).\<close>

definition example_gfa_graph :: UnitigMapper where
  "example_gfa_graph =
     \<lparr>v_unitigs = [Some \<lparr>seq = ''ACGTA'', coveragesum = 6, ccov = cov_one\<rparr>],
      v_kmers = [(''AAC'', \<lparr>isFull = True, cov_full = 2, covs = []\<rparr>)],
      h_kmers_ccov =
        \<lparr>hasher = (\<lambda>km. 0),
         table = [(''CCA'', cov_one), (''-'', cov_one),
                  (''GGA'', \<lparr>isFull = True, cov_full = 2, covs = []\<rparr>), (''-'', cov_one)],
         size_tbl = 4, pop = 2, num_empty = 2,
         empty_val = (''-'', cov_one), deleted = (''+'', cov_one)\<rparr>,
      hmap_min_unitigs =
        \<lparr>hasher = (\<lambda>minz. 0), table = replicate 4 (''-'', []),
         size_tbl = 4, pop = 0, num_empty = 4, empty_val = (''-'', []), deleted = (''+'', [])\<rparr>\<rparr>"

section \<open>Properties of the unitig index\<close>

subsection \<open>Lookup of a k-mer\<close>

lemma results_CTTTG: "min_results (lex_minHashIterator 3) ''CTTTG'' = [\<lparr>hash = 0, pos = 1\<rparr>]"
  by (simp add: lex_minHashIterator_def least_results_def gmer_codes_def kmer_code_def rep_def
      twin_def complement_def base_code_def)

lemma results_CAAAG: "min_results (lex_minHashIterator 3) ''CAAAG'' = [\<lparr>hash = 0, pos = 1\<rparr>]"
  by (simp add: lex_minHashIterator_def least_results_def gmer_codes_def kmer_code_def rep_def
      twin_def complement_def base_code_def)

lemma find_AAA: "KmerHashTable_find (hmap_min_unitigs example_short_graph) ''AAA'' = Some 0"
  by (simp add: KmerHashTable_find_def example_short_graph_def find_loop.simps)

text \<open>C1. A short unitig whose minimizer sits in the middle of the k-mer: \<^verbatim>\<open>CAAAG\<close> is
  canonical and stored as short unitig 0, its twin \<^verbatim>\<open>CTTTG\<close> has the minimizer at the same
  position 1, and \<^verbatim>\<open>find\<close> reports the forward strand for the twin as it does for the k-mer
  itself, although the unitig holds \<^verbatim>\<open>CAAAG\<close> and not \<^verbatim>\<open>CTTTG\<close> at offset 0.\<close>

theorem find_short_twin_strand:
  "UnitigMapper_find example_short_graph (lex_minHashIterator 3) 5 3 ''CTTTG'' False =
     Some (UnitigMap_make 0 0 0 1 5 True False True) \<and>
   UnitigMapper_find example_short_graph (lex_minHashIterator 3) 5 3 ''CAAAG'' False =
     Some (UnitigMap_make 0 0 0 1 5 True False True) \<and>
   fst (v_kmers example_short_graph ! 0) = ''CAAAG'' \<and> twin ''CTTTG'' = ''CAAAG''"
proof -
  have "UnitigMapper_find example_short_graph (lex_minHashIterator 3) 5 3 ''CTTTG'' False =
     Some (UnitigMap_make 0 0 0 1 5 True False True)"
    unfolding UnitigMapper_find_def results_CTTTG
    apply (simp add: Minimizer_rep_at_def rep_def twin_def complement_def base_code_def find_AAA)
    apply (subst find_while.simps)
    apply (simp add: example_short_graph_def KmerHashTable_end_def find_entry_def Let_def
        RESERVED_ID_def MASK_CONTIG_TYPE_def MASK_CONTIG_POS_def twin_def complement_def
        base_code_def)
    done
  moreover have "UnitigMapper_find example_short_graph (lex_minHashIterator 3) 5 3 ''CAAAG'' False =
     Some (UnitigMap_make 0 0 0 1 5 True False True)"
    unfolding UnitigMapper_find_def results_CAAAG
    apply (simp add: Minimizer_rep_at_def rep_def twin_def complement_def base_code_def find_AAA)
    apply (subst find_while.simps)
    apply (simp add: example_short_graph_def KmerHashTable_end_def find_entry_def Let_def
        RESERVED_ID_def MASK_CONTIG_TYPE_def MASK_CONTIG_POS_def twin_def complement_def
        base_code_def)
    done
  moreover have "fst (v_kmers example_short_graph ! 0) = ''CAAAG''"
    by (simp add: example_short_graph_def)
  moreover have "twin ''CTTTG'' = ''CAAAG''"
    by (simp add: twin_def complement_def)
  ultimately show ?thesis
    by (intro conjI)
qed

subsection \<open>Candidates for joining\<close>

lemmas kmer_eval = rep_def twin_def complement_def base_code_def forwardBase_def
  lex_minHashIterator_def least_results_def gmer_codes_def kmer_code_def Minimizer_rep_at_def

lemma find_AA: "KmerHashTable_find (hmap_min_unitigs example_join_graph) ''AA'' = Some 0"
  by (simp add: KmerHashTable_find_def example_join_graph_def find_loop.simps)

lemma find_AC: "KmerHashTable_find (hmap_min_unitigs example_join_graph) ''AC'' = Some 1"
  by (simp add: KmerHashTable_find_def example_join_graph_def find_loop.simps)

lemmas find_eval = UnitigMapper_find_def kmer_eval find_AA find_AC

lemmas entry_eval = example_join_graph_def KmerHashTable_end_def find_entry_def Let_def
      RESERVED_ID_def MASK_CONTIG_TYPE_def MASK_CONTIG_POS_def twin_def complement_def base_code_def
      compareKmer_def UnitigMap_make_def UnitigMap_empty_def

lemma f_GTC: "UnitigMapper_find example_join_graph (lex_minHashIterator 2) 3 2 ''GTC'' True =
   Some (UnitigMap_make 0 1 2 1 5 False False True)"
  apply (simp add: find_eval)
  apply (subst find_while.simps)
  apply (simp add: entry_eval)
  done

lemma f_GTA: "UnitigMapper_find example_join_graph (lex_minHashIterator 2) 3 2 ''GTA'' True =
   Some (UnitigMap_empty 1)"
  apply (simp add: find_eval)
  apply (subst find_while.simps)
  apply (simp add: entry_eval)
  apply (subst find_while.simps)
  apply (simp add: entry_eval)
  done

lemma f_GTG: "UnitigMapper_find example_join_graph (lex_minHashIterator 2) 3 2 ''GTG'' True =
   Some (UnitigMap_empty 1)"
  apply (simp add: find_eval)
  apply (subst find_while.simps)
  apply (simp add: entry_eval)
  apply (subst find_while.simps)
  apply (simp add: entry_eval)
  done

lemma f_GTT: "UnitigMapper_find example_join_graph (lex_minHashIterator 2) 3 2 ''GTT'' True =
   Some (UnitigMap_empty 0)"
  apply (simp add: find_eval)
  apply (subst find_while.simps)
  apply (simp add: entry_eval)
  apply (subst find_while.simps)
  apply (simp add: entry_eval)
  done

lemma f_ACA: "UnitigMapper_find example_join_graph (lex_minHashIterator 2) 3 2 ''ACA'' True =
   Some (UnitigMap_empty 1)"
  apply (simp add: find_eval)
  apply (subst find_while.simps)
  apply (simp add: entry_eval)
  apply (subst find_while.simps)
  apply (simp add: entry_eval)
  done

lemma f_ACC: "UnitigMapper_find example_join_graph (lex_minHashIterator 2) 3 2 ''ACC'' True =
   Some (UnitigMap_empty 1)"
  apply (simp add: find_eval)
  apply (subst find_while.simps)
  apply (simp add: entry_eval)
  apply (subst find_while.simps)
  apply (simp add: entry_eval)
  done

lemma f_ACG: "UnitigMapper_find example_join_graph (lex_minHashIterator 2) 3 2 ''ACG'' True =
   Some (UnitigMap_make 0 1 0 1 3 True False True)"
  apply (simp add: find_eval)
  apply (subst find_while.simps)
  apply (simp add: entry_eval)
  done

lemma f_ACT: "UnitigMapper_find example_join_graph (lex_minHashIterator 2) 3 2 ''ACT'' True =
   Some (UnitigMap_empty 1)"
  apply (simp add: find_eval)
  apply (subst find_while.simps)
  apply (simp add: entry_eval)
  apply (subst find_while.simps)
  apply (simp add: entry_eval)
  done


lemma fw_loop_CGT:
  "for_loop (fw_step example_join_graph (lex_minHashIterator 2) 3 2 ''CGT'') alpha
     (0, [], UnitigMap_empty 0) =
   Some (Inr (1, ''GTC'', UnitigMap_make 0 1 2 1 5 False False True))"
  by (simp add: alpha_def fw_step_def forwardBase_def f_GTA f_GTC f_GTG f_GTT Let_def
      UnitigMap_make_def UnitigMap_empty_def)

lemma bw_loop_GAC:
  "for_loop (bw_step example_join_graph (lex_minHashIterator 2) 3 2 ''GAC'') alpha 0 = Some (Inr 1)"
  by (simp add: alpha_def bw_step_def forwardBase_def f_ACA f_ACC f_ACG f_ACT Let_def
      UnitigMap_make_def UnitigMap_empty_def)

lemma twin_GTC: "twin ''GTC'' = ''GAC''"
  by (simp add: twin_def complement_def)

lemma heads_example:
  "unitig_head example_join_graph 3 (UnitigMap_make 0 1 2 1 5 False False True) = Some ''AAG''"
  "unitig_head example_join_graph 3 (UnitigMap_make 0 0 0 1 3 True False True) = Some ''ACG''"
  by (simp_all add: unitig_head_def example_join_graph_def getKmer_def UnitigMap_make_def)

text \<open>C4. \<^verbatim>\<open>checkJoin\<close> on the end \<^verbatim>\<open>CGT\<close> (the twin of the short unitig \<^verbatim>\<open>ACG\<close>): the only
  forward extension found is \<^verbatim>\<open>GTC\<close>, the last k-mer of the long unitig, whose twin has the
  single extension \<^verbatim>\<open>ACG\<close>.  \<^verbatim>\<open>GTC\<close> is neither the head of its unitig nor the twin of its last
  k-mer, so that the function falls through to the last \<^verbatim>\<open>return true\<close> and \<^verbatim>\<open>b\<close> keeps the
  value it had.\<close>

theorem checkJoin_leaves_b_unset:
  "checkJoin example_join_graph (lex_minHashIterator 2) 3 2 ''CGT''
     (UnitigMap_make 0 0 0 1 3 True False True) ''AAA'' = Some (True, ''AAA'') \<and>
   for_loop (fw_step example_join_graph (lex_minHashIterator 2) 3 2 ''CGT'') alpha
     (0, [], UnitigMap_empty 0) =
   Some (Inr (1, ''GTC'', UnitigMap_make 0 1 2 1 5 False False True))"
proof -
  have "checkJoin example_join_graph (lex_minHashIterator 2) 3 2 ''CGT''
     (UnitigMap_make 0 0 0 1 3 True False True) ''AAA'' = Some (True, ''AAA'')"
    apply (simp add: checkJoin_def fw_loop_CGT loop_state_def Let_def twin_GTC bw_loop_GAC
        heads_example)
    apply (simp add: example_join_graph_def getKmer_def UnitigMap_make_def twin_def complement_def)
    done
  with fw_loop_CGT show ?thesis
    by (intro conjI)
qed

subsection \<open>Segment lines\<close>

lemma abundant_fold:
  "fold (\<lambda>p (id, ls). (id + 1, ls @ [S_line (id + 1) (fst p) k (kmer_XC (snd p))])) ps (n, acc) =
     (n + length ps,
      acc @ map (\<lambda>j. S_line (Suc (n + j)) (fst (ps ! j)) k (kmer_XC (snd (ps ! j)))) [0..<length ps])"
proof (induction ps arbitrary: n acc)
  case Nil
  then show ?case by simp
next
  case (Cons p ps)
  have "map (\<lambda>j. S_line (Suc (n + j)) (fst ((p # ps) ! j)) k (kmer_XC (snd ((p # ps) ! j))))
          [0..<Suc (length ps)] =
        S_line (Suc n) (fst p) k (kmer_XC (snd p)) #
        map (\<lambda>j. S_line (Suc (Suc n + j)) (fst (ps ! j)) k (kmer_XC (snd (ps ! j)))) [0..<length ps]"
    by (simp add: map_upt_Suc del: upt_Suc)
  with Cons.IH [of "Suc n" "acc @ [S_line (Suc n) (fst p) k (kmer_XC (snd p))]"] show ?case
    by simp
qed

lemma those_long_ids:
  "those (map (\<lambda>labelA. map_option (\<lambda>unitig. S_line labelA (F unitig) (G unitig) (H unitig)) (us labelA)) xs)
     = Some ls \<Longrightarrow> map S_id ls = xs"
proof (induction xs arbitrary: ls)
  case Nil
  then show ?case by simp
next
  case (Cons x xs)
  then show ?case
    by (auto split: option.splits)
qed

lemma writeGFA_S_ids:
  assumes "writeGFA_S k M = Some ls"
  shows "map S_id ls =
     0 # [1..<length (v_unitigs M) + 1] @
     map (\<lambda>i. i + length (v_unitigs M)) [1..<length (v_kmers M) + 1] @
     map (\<lambda>j. length (v_unitigs M) + length (v_kmers M) + 2 + j)
       [0..<length (KmerHashTable_entries (h_kmers_ccov M))]"
proof -
  from assms obtain ll where
    ll: "those (map (\<lambda>labelA.
                   map_option (\<lambda>unitig. S_line labelA (seq unitig) (length (seq unitig))
                                          (coveragesum unitig))
                     (v_unitigs M ! (labelA - 1)))
                 [1..<length (v_unitigs M) + 1]) = Some ll"
    and ls: "ls = H_line # ll @
       map (\<lambda>labelA. let p = v_kmers M ! (labelA - 1)
                      in S_line (labelA + length (v_unitigs M)) (fst p) k (kmer_XC (snd p)))
         [1..<length (v_kmers M) + 1] @
       snd (fold (\<lambda>p (id, ls). (id + 1, ls @ [S_line (id + 1) (fst p) k (kmer_XC (snd p))]))
              (KmerHashTable_entries (h_kmers_ccov M))
              (length (v_unitigs M) + length (v_kmers M) + 1, []))"
    unfolding writeGFA_S_def Let_def by auto
  from those_long_ids [OF ll] have "map S_id ll = [1..<length (v_unitigs M) + 1]" .
  then show ?thesis
    unfolding ls abundant_fold by (simp add: Let_def comp_def del: upt_Suc)
qed

text \<open>C2. Long unitigs get the ids \<^verbatim>\<open>1..|long|\<close> and short ones \<^verbatim>\<open>|long|+1..|long|+|short|\<close>,
  each S-line carrying the sequence, its length and the coverage; but \<^verbatim>\<open>id\<close> starts at
  \<^verbatim>\<open>|long|+|short|+1\<close> and is incremented before its first use, so that with one long, one short
  and two abundant unitigs the abundant ids are 4 and 5, and the id 3 is never used.\<close>

theorem writeGFA_abundant_ids_example:
  "writeGFA_S 3 example_gfa_graph =
     Some [H_line, S_line 1 ''ACGTA'' 5 6, S_line 2 ''AAC'' 3 2, S_line 4 ''CCA'' 3 1,
           S_line 5 ''GGA'' 3 2]"
  by (simp add: writeGFA_S_def example_gfa_graph_def kmer_XC_def covAt_def cov_one_def
      KmerHashTable_entries_def occupied_def)

end
